theory Spec2Isabelle
  imports Complex_Main "HOL-Library.Char_ord" "HOL-Library.List_Lexorder"
begin

section \<open>Shared data model\<close>

text \<open>
  The three scripts \<^verbatim>\<open>images_to_pdf_v1.py\<close> (flow layout), \<^verbatim>\<open>images_to_pdf_v2.py\<close>
  (grid layout) and \<^verbatim>\<open>images_to_pdf_v3.py\<close> (spiral layout) are embedded side by side.
  Python integers are modelled as \<open>nat\<close> or \<open>int\<close>, Python floats as reals: exact reals in
  the sections of the three layouts, and reals rounded after every operation in the section
  on the flow layout over machine floats.

  A \<^verbatim>\<open>Path\<close> object is a record of what the scripts ask of it: \<^verbatim>\<open>.name\<close>,
  \<^verbatim>\<open>.suffix\<close>, \<^verbatim>\<open>.is_file()\<close>, what \<^verbatim>\<open>Image.open(path).size\<close> yields
  (\<open>None\<close> when it raises) and whether \<^verbatim>\<open>ImageReader\<close> and \<^verbatim>\<open>drawImage\<close> succeed
  on the file (\<open>False\<close> when one of them raises).
\<close>

record file_path =
  fp_name :: string
  fp_suffix :: string
  fp_is_file :: bool
  fp_size :: "(nat \<times> nat) option"
  fp_readable :: bool

text \<open>\<^verbatim>\<open>MARGIN = 36\<close>.\<close>

definition MARGIN :: real where
  "MARGIN = 36"

text \<open>
  \<^verbatim>\<open>calculate_image_dimensions\<close> (identical in the three scripts). The whole body is inside
  \<^verbatim>\<open>try\<close>: a failing \<^verbatim>\<open>Image.open\<close> and the \<^verbatim>\<open>ZeroDivisionError\<close> of a zero
  width or height both end in \<^verbatim>\<open>return None, None, None\<close>, modelled as \<open>None\<close>.
\<close>

definition calculate_image_dimensions ::
  "file_path \<Rightarrow> real \<Rightarrow> real \<Rightarrow> (real \<times> real \<times> real) option" where
  "calculate_image_dimensions img_path max_width max_height =
     (case fp_size img_path of
        None \<Rightarrow> None
      | Some (orig_width, orig_height) \<Rightarrow>
          if orig_width = 0 then None
          else if orig_height = 0 then None
          else
            let width_ratio = max_width / real orig_width;
                height_ratio = max_height / real orig_height;
                scale_factor = min width_ratio height_ratio;
                new_width = real orig_width * scale_factor;
                new_height = real orig_height * scale_factor
            in Some (new_width, new_height, scale_factor))"

text \<open>
  Modelled from the spec: \<^verbatim>\<open>A4\<close> is imported from reportlab, which is not part of the
  sources; section 6 of the specification gives the page size as 595.27 x 841.89 pt.
  The functions below take the page size as a parameter.
\<close>

definition A4 :: "real \<times> real" where
  "A4 = (59527 / 100, 84189 / 100)"

text \<open>One \<^verbatim>\<open>c.drawImage(img_reader, x, y, width=..., height=...)\<close> call.\<close>

record draw_call =
  dc_path :: file_path
  dc_x :: real
  dc_y :: real
  dc_width :: real
  dc_height :: real

text \<open>Sample files for the examples: a readable image of a given size, and a corrupt file.\<close>

definition photo :: "string \<Rightarrow> nat \<Rightarrow> nat \<Rightarrow> file_path" where
  "photo n w h = \<lparr>fp_name = n, fp_suffix = ''.png'', fp_is_file = True,
                   fp_size = Some (w, h), fp_readable = True\<rparr>"

definition corrupt :: "string \<Rightarrow> file_path" where
  "corrupt n = \<lparr>fp_name = n, fp_suffix = ''.png'', fp_is_file = True,
                 fp_size = None, fp_readable = False\<rparr>"

section \<open>Flow layout (\<^verbatim>\<open>images_to_pdf_v1.py\<close>)\<close>

text \<open>The dictionaries collected in \<^verbatim>\<open>row_images\<close>.\<close>

record row_image =
  ri_path :: file_path
  ri_width :: real
  ri_height :: real
  ri_scale :: real

text \<open>
  The inner \<^verbatim>\<open>while\<close> loop of \<^verbatim>\<open>arrange_images_on_page\<close>, which fills one row. Its
  state is \<^verbatim>\<open>current_idx\<close>, \<^verbatim>\<open>remaining_width\<close>, \<^verbatim>\<open>row_images\<close> and \<^verbatim>\<open>row_height\<close>;
  the result is the state at the exit of the loop.
\<close>

function fill_row ::
  "file_path list \<Rightarrow> real \<Rightarrow> real \<Rightarrow> real \<Rightarrow> nat \<Rightarrow> real \<Rightarrow> row_image list \<Rightarrow> real
     \<Rightarrow> row_image list \<times> real \<times> nat" where
  "fill_row image_files available_width available_height remaining_height
       current_idx remaining_width row_images row_height =
     (if current_idx < length image_files \<and> remaining_width > 50 then
        let img_path = image_files ! current_idx;
            max_img_width = min remaining_width (available_width * 0.8);
            max_img_height = min remaining_height (available_height * 0.6)
        in case calculate_image_dimensions img_path max_img_width max_img_height of
             None \<Rightarrow>
               fill_row image_files available_width available_height remaining_height
                 (current_idx + 1) remaining_width row_images row_height
           | Some (width, height, scale) \<Rightarrow>
               if width \<le> remaining_width then
                 fill_row image_files available_width available_height remaining_height
                   (current_idx + 1) (remaining_width - (width + 10))
                   (row_images @ [\<lparr>ri_path = img_path, ri_width = width,
                                     ri_height = height, ri_scale = scale\<rparr>])
                   (max row_height height)
               else (row_images, row_height, current_idx)
      else (row_images, row_height, current_idx))"
  by pat_completeness auto
termination
  by (relation "measure (\<lambda>(image_files, aw, ah, rh, current_idx, rw, row, rowh).
        length image_files - current_idx)") auto

declare fill_row.simps [simp del]

text \<open>The index never goes back, and every image of the row consumed one index.\<close>

lemma fill_row_index:
  "fill_row image_files aw ah rh idx rw row rowh = (row', rowh', idx')
   \<Longrightarrow> idx \<le> idx' \<and> idx' \<le> max idx (length image_files)
       \<and> length row' + idx \<le> length row + idx'"
proof (induction image_files aw ah rh idx rw row rowh rule: fill_row.induct)
  case (1 image_files aw ah rh idx rw row rowh)
  show ?case
  proof (cases "idx < length image_files \<and> rw > 50")
    case False
    then show ?thesis using "1.prems" by (auto simp: fill_row.simps)
  next
    case True
    let ?mw = "min rw (aw * 0.8)" and ?mh = "min rh (ah * 0.6)"
    show ?thesis
    proof (cases "calculate_image_dimensions (image_files ! idx) ?mw ?mh")
      case None
      with True "1.prems" have
        "fill_row image_files aw ah rh (idx + 1) rw row rowh = (row', rowh', idx')"
        by (simp add: fill_row.simps [of image_files aw ah rh idx])
      from "1.IH"(1) [OF True refl refl refl None this] True show ?thesis by auto
    next
      case (Some t)
      obtain w h s where t: "t = (w, h, s)" by (cases t)
      show ?thesis
      proof (cases "w \<le> rw")
        case False
        with True Some t "1.prems" show ?thesis
          by (simp add: fill_row.simps [of image_files aw ah rh idx])
      next
        case wle: True
        with True Some t "1.prems" have
          "fill_row image_files aw ah rh (idx + 1) (rw - (w + 10))
             (row @ [\<lparr>ri_path = image_files ! idx, ri_width = w, ri_height = h, ri_scale = s\<rparr>])
             (max rowh h) = (row', rowh', idx')"
          by (simp add: fill_row.simps [of image_files aw ah rh idx])
        from "1.IH"(2) [OF True refl refl refl Some [unfolded t] refl refl wle this] True
        show ?thesis by auto
      qed
    qed
  qed
qed

lemma fill_row_progress:
  assumes "(row', r) = fill_row image_files aw ah rh idx rw [] rowh"
    and "(rowh', idx') = r" and "row' \<noteq> []"
  shows "idx < idx'"
proof -
  have "fill_row image_files aw ah rh idx rw [] rowh = (row', rowh', idx')"
    using assms(1,2) by simp
  from fill_row_index [OF this] assms(3) show ?thesis by (cases row') auto
qed

text \<open>
  The outer \<^verbatim>\<open>while\<close> loop of \<^verbatim>\<open>arrange_images_on_page\<close>, which stacks rows; the
  result is \<^verbatim>\<open>(page_images, current_idx)\<close>.
\<close>

function page_rows ::
  "file_path list \<Rightarrow> real \<Rightarrow> real \<Rightarrow> nat \<Rightarrow> real \<Rightarrow> row_image list list
     \<Rightarrow> row_image list list \<times> nat" where
  "page_rows image_files available_width available_height
       current_idx remaining_height page_images =
     (if current_idx < length image_files \<and> remaining_height > 50 then
        case fill_row image_files available_width available_height remaining_height
               current_idx available_width [] 0 of
          (row_images, row_height, current_idx') \<Rightarrow>
            if row_images \<noteq> [] \<and> row_height \<le> remaining_height then
              page_rows image_files available_width available_height
                current_idx' (remaining_height - (row_height + 10))
                (page_images @ [row_images])
            else (page_images, current_idx')
      else (page_images, current_idx))"
  by pat_completeness auto
termination
proof (relation "measure (\<lambda>(image_files, aw, ah, current_idx, rh, pages).
        length image_files - current_idx)", goal_cases)
  case 1
  show ?case by simp
next
  case 2
  then show ?case by (auto dest: fill_row_progress)
qed

declare page_rows.simps [simp del]

definition arrange_images_on_page ::
  "file_path list \<Rightarrow> nat \<Rightarrow> real \<Rightarrow> real \<Rightarrow> row_image list list \<times> nat" where
  "arrange_images_on_page image_files start_idx available_width available_height =
     page_rows image_files available_width available_height start_idx available_height []"

lemma page_rows_index:
  "page_rows image_files aw ah idx rh pages = (pages', idx')
   \<Longrightarrow> idx \<le> idx' \<and> idx' \<le> max idx (length image_files)
       \<and> length pages' + idx \<le> length pages + idx'"
proof (induction image_files aw ah idx rh pages rule: page_rows.induct)
  case (1 image_files aw ah idx rh pages)
  show ?case
  proof (cases "idx < length image_files \<and> rh > 50")
    case False
    then show ?thesis using "1.prems" by (auto simp: page_rows.simps)
  next
    case True
    obtain row rowh idx1 where fr:
      "fill_row image_files aw ah rh idx aw [] 0 = (row, rowh, idx1)"
      by (cases "fill_row image_files aw ah rh idx aw [] 0") auto
    note fi = fill_row_index [OF fr]
    show ?thesis
    proof (cases "row \<noteq> [] \<and> rowh \<le> rh")
      case False
      with True fr "1.prems" have "pages' = pages" "idx' = idx1"
        by (auto simp: page_rows.simps [of image_files aw ah idx])
      with fi show ?thesis by simp
    next
      case ok: True
      with True fr "1.prems" have
        "page_rows image_files aw ah idx1 (rh - (rowh + 10)) (pages @ [row]) = (pages', idx')"
        by (simp add: page_rows.simps [of image_files aw ah idx])
      from "1.IH" [OF True fr [symmetric] refl ok this] fi ok True
      show ?thesis by (cases row) auto
    qed
  qed
qed

lemma arrange_images_on_page_progress:
  assumes "(page_images, next_idx) = arrange_images_on_page image_files idx aw ah"
    and "page_images \<noteq> []"
  shows "idx < next_idx"
proof -
  have "page_rows image_files aw ah idx ah [] = (page_images, next_idx)"
    using assms(1) by (simp add: arrange_images_on_page_def)
  from page_rows_index [OF this] assms(2) show ?thesis by (cases page_images) auto
qed

text \<open>
  The branch \<^verbatim>\<open>if not page_images\<close> of \<^verbatim>\<open>create_pdf_from_images\<close>: the draw calls it
  puts on the page.
\<close>

definition draw_single_image :: "real \<Rightarrow> real \<Rightarrow> file_path \<Rightarrow> draw_call list" where
  "draw_single_image available_width available_height img_path =
     (case calculate_image_dimensions img_path available_width available_height of
        None \<Rightarrow> []
      | Some (width, height, scale) \<Rightarrow>
          let x = MARGIN + (available_width - width) / 2;
              y = MARGIN + (available_height - height) / 2
          in if fp_readable img_path
             then [\<lparr>dc_path = img_path, dc_x = x, dc_y = y,
                     dc_width = width, dc_height = height\<rparr>]
             else [])"

text \<open>
  The loop \<^verbatim>\<open>for img_info in row\<close>: \<^verbatim>\<open>current_x\<close> advances inside the \<^verbatim>\<open>try\<close>, so
  an image whose drawing raises leaves it unchanged.
\<close>

fun draw_row_images :: "real \<Rightarrow> real \<Rightarrow> real \<Rightarrow> row_image list \<Rightarrow> draw_call list" where
  "draw_row_images current_y row_height current_x [] = []"
| "draw_row_images current_y row_height current_x (img_info # rest) =
     (if fp_readable (ri_path img_info) then
        (let img_y = current_y + (row_height - ri_height img_info) / 2
         in \<lparr>dc_path = ri_path img_info, dc_x = current_x, dc_y = img_y,
              dc_width = ri_width img_info, dc_height = ri_height img_info\<rparr>
            # draw_row_images current_y row_height
                (current_x + (ri_width img_info + 10)) rest)
      else draw_row_images current_y row_height current_x rest)"

text \<open>
  The loop \<^verbatim>\<open>for row in page_images\<close>. The rows are never empty (see \<open>page_rows\<close>), so
  \<^verbatim>\<open>max(...)\<close> does not raise.
\<close>

fun draw_rows :: "real \<Rightarrow> real \<Rightarrow> row_image list list \<Rightarrow> draw_call list" where
  "draw_rows available_width current_y [] = []"
| "draw_rows available_width current_y (row # rest) =
     (let row_width = sum_list (map ri_width row) + (real (length row) - 1) * 10;
          start_x = MARGIN + (available_width - row_width) / 2;
          row_height = Max (set (map ri_height row));
          current_y = current_y - row_height
      in draw_row_images current_y row_height start_x row
         @ draw_rows available_width (current_y - 10) rest)"

text \<open>
  The \<^verbatim>\<open>while current_idx < len(image_files)\<close> loop of \<^verbatim>\<open>create_pdf_from_images\<close>:
  every iteration draws one page, and \<^verbatim>\<open>c.showPage()\<close> separates it from the next. The
  result is the list of pages; \<^verbatim>\<open>page_num\<close> is its length.
\<close>

function pdf_pages :: "real \<times> real \<Rightarrow> file_path list \<Rightarrow> nat \<Rightarrow> draw_call list list" where
  "pdf_pages pagesize image_files current_idx =
     (if current_idx < length image_files then
        case arrange_images_on_page image_files current_idx
               (fst pagesize - 2 * MARGIN) (snd pagesize - 2 * MARGIN) of
          (page_images, next_idx) \<Rightarrow>
            if page_images = [] then
              draw_single_image (fst pagesize - 2 * MARGIN) (snd pagesize - 2 * MARGIN)
                (image_files ! current_idx)
              # pdf_pages pagesize image_files (current_idx + 1)
            else
              draw_rows (fst pagesize - 2 * MARGIN) (snd pagesize - MARGIN) page_images
              # pdf_pages pagesize image_files next_idx
      else [])"
  by pat_completeness auto
termination
proof (relation "measure (\<lambda>(pagesize, image_files, current_idx).
        length image_files - current_idx)", goal_cases)
  case 1
  show ?case by simp
next
  case 2
  then show ?case by simp
next
  case 3
  then show ?case by (auto dest: arrange_images_on_page_progress)
qed

declare pdf_pages.simps [simp del]

text \<open>
  \<^verbatim>\<open>create_pdf_from_images\<close> of the flow script. \<open>None\<close> is the early return after
  \<^verbatim>\<open>"No image files found."\<close> (no canvas is created); otherwise the pages of the saved
  PDF, each the list of its \<^verbatim>\<open>drawImage\<close> calls.
\<close>

definition create_pdf_from_images_v1 ::
  "real \<times> real \<Rightarrow> file_path list \<Rightarrow> draw_call list list option" where
  "create_pdf_from_images_v1 pagesize image_files =
     (if image_files = [] then None
      else Some (pdf_pages pagesize image_files 0))"

section \<open>Flow layout over machine floats\<close>

text \<open>
  A Python float is an IEEE 754 binary64 number, and \<^verbatim>\<open>+\<close>, \<^verbatim>\<open>-\<close>, \<^verbatim>\<open>*\<close> and \<^verbatim>\<open>/\<close>
  on floats return the exact result rounded to the nearest such number. This section
  repeats \<^verbatim>\<open>calculate_image_dimensions\<close> and the two loops of
  \<^verbatim>\<open>arrange_images_on_page\<close> with every such operation passed through a rounding
  function \<open>rnd\<close>. Comparisons, \<^verbatim>\<open>min\<close> and \<^verbatim>\<open>max\<close> are exact, and so is the
  conversion of a pixel count or of the integers \<^verbatim>\<open>10\<close> and \<^verbatim>\<open>50\<close> to a float; the
  literals \<^verbatim>\<open>0.8\<close> and \<^verbatim>\<open>0.6\<close> are rounded when the script is read. With the identity
  for \<open>rnd\<close> the definitions are those over exact reals of the section above.
\<close>

text \<open>Rounding to the nearest integer, a tie going to the even one.\<close>

definition round_half_even :: "real \<Rightarrow> int" where
  "round_half_even x =
     (let n = \<lfloor>x\<rfloor>; r = x - of_int n
      in if r < 1 / 2 then n else if 1 / 2 < r then n + 1
         else if even n then n else n + 1)"

text \<open>\<open>ilog2 n\<close> is the position of the leading bit of \<open>n\<close>: \<open>2 ^ ilog2 n \<le> n < 2 ^ (ilog2 n + 1)\<close>.\<close>

fun ilog2 :: "nat \<Rightarrow> nat" where
  "ilog2 n = (if n < 2 then 0 else Suc (ilog2 (n div 2)))"

declare ilog2.simps [simp del]

text \<open>The binary exponent of a positive real: \<open>2 powi exponent x \<le> x < 2 powi (exponent x + 1)\<close>.\<close>

definition exponent :: "real \<Rightarrow> int" where
  "exponent x = (if 1 \<le> x then int (ilog2 (nat \<lfloor>x\<rfloor>))
                 else - int (Suc (ilog2 (nat (\<lceil>1 / x\<rceil> - 1)))))"

text \<open>
  The binary64 number nearest to a real: a significand of 53 bits, so the spacing at \<open>x\<close>
  is \<open>2 powi (exponent \<bar>x\<bar> - 52)\<close>, rounded to nearest with ties to even. The exponent
  range is not bounded here (no overflow to infinity and no gradual underflow); the
  quantities of the layout are far from both ends of the range.
\<close>

definition binary64 :: "real \<Rightarrow> real" where
  "binary64 x =
     (if x = 0 then 0
      else let ulp = 2 powi (exponent \<bar>x\<bar> - 52)
           in of_int (round_half_even (x / ulp)) * ulp)"

text \<open>\<^verbatim>\<open>calculate_image_dimensions\<close> over floats: two divisions and two multiplications.\<close>

definition calculate_image_dimensions_fl ::
  "(real \<Rightarrow> real) \<Rightarrow> file_path \<Rightarrow> real \<Rightarrow> real \<Rightarrow> (real \<times> real \<times> real) option" where
  "calculate_image_dimensions_fl rnd img_path max_width max_height =
     (case fp_size img_path of
        None \<Rightarrow> None
      | Some (orig_width, orig_height) \<Rightarrow>
          if orig_width = 0 then None
          else if orig_height = 0 then None
          else
            let width_ratio = rnd (max_width / real orig_width);
                height_ratio = rnd (max_height / real orig_height);
                scale_factor = min width_ratio height_ratio;
                new_width = rnd (real orig_width * scale_factor);
                new_height = rnd (real orig_height * scale_factor)
            in Some (new_width, new_height, scale_factor))"

text \<open>
  The inner \<^verbatim>\<open>while\<close> loop of \<^verbatim>\<open>arrange_images_on_page\<close> over floats. The branch
  \<^verbatim>\<open>else: break\<close> of \<^verbatim>\<open>if width <= remaining_width\<close> returns the state unchanged: the
  image at \<^verbatim>\<open>current_idx\<close> is left for the next row.
\<close>

function fill_row_fl ::
  "(real \<Rightarrow> real) \<Rightarrow> file_path list \<Rightarrow> real \<Rightarrow> real \<Rightarrow> real \<Rightarrow> nat \<Rightarrow> real
     \<Rightarrow> row_image list \<Rightarrow> real \<Rightarrow> row_image list \<times> real \<times> nat" where
  "fill_row_fl rnd image_files available_width available_height remaining_height
       current_idx remaining_width row_images row_height =
     (if current_idx < length image_files \<and> remaining_width > 50 then
        let img_path = image_files ! current_idx;
            max_img_width = min remaining_width (rnd (available_width * rnd 0.8));
            max_img_height = min remaining_height (rnd (available_height * rnd 0.6))
        in case calculate_image_dimensions_fl rnd img_path max_img_width max_img_height of
             None \<Rightarrow>
               fill_row_fl rnd image_files available_width available_height remaining_height
                 (current_idx + 1) remaining_width row_images row_height
           | Some (width, height, scale) \<Rightarrow>
               if width \<le> remaining_width then
                 fill_row_fl rnd image_files available_width available_height remaining_height
                   (current_idx + 1) (rnd (remaining_width - rnd (width + 10)))
                   (row_images @ [\<lparr>ri_path = img_path, ri_width = width,
                                     ri_height = height, ri_scale = scale\<rparr>])
                   (max row_height height)
               else (row_images, row_height, current_idx)
      else (row_images, row_height, current_idx))"
  by pat_completeness auto
termination
  by (relation "measure (\<lambda>(rnd, image_files, aw, ah, rh, current_idx, rw, row, rowh).
        length image_files - current_idx)") auto

declare fill_row_fl.simps [simp del]

lemma fill_row_fl_index:
  "fill_row_fl rnd image_files aw ah rh idx rw row rowh = (row', rowh', idx')
   \<Longrightarrow> idx \<le> idx' \<and> idx' \<le> max idx (length image_files)
       \<and> length row' + idx \<le> length row + idx'"
proof (induction rnd image_files aw ah rh idx rw row rowh rule: fill_row_fl.induct)
  case (1 rnd image_files aw ah rh idx rw row rowh)
  show ?case
  proof (cases "idx < length image_files \<and> rw > 50")
    case False
    then show ?thesis using "1.prems" by (auto simp: fill_row_fl.simps)
  next
    case True
    let ?mw = "min rw (rnd (aw * rnd 0.8))" and ?mh = "min rh (rnd (ah * rnd 0.6))"
    show ?thesis
    proof (cases "calculate_image_dimensions_fl rnd (image_files ! idx) ?mw ?mh")
      case None
      with True "1.prems" have
        "fill_row_fl rnd image_files aw ah rh (idx + 1) rw row rowh = (row', rowh', idx')"
        by (simp add: fill_row_fl.simps [of rnd image_files aw ah rh idx])
      from "1.IH"(1) [OF True refl refl refl None this] True show ?thesis by auto
    next
      case (Some t)
      obtain w h s where t: "t = (w, h, s)" by (cases t)
      show ?thesis
      proof (cases "w \<le> rw")
        case False
        with True Some t "1.prems" show ?thesis
          by (simp add: fill_row_fl.simps [of rnd image_files aw ah rh idx])
      next
        case wle: True
        with True Some t "1.prems" have
          "fill_row_fl rnd image_files aw ah rh (idx + 1) (rnd (rw - rnd (w + 10)))
             (row @ [\<lparr>ri_path = image_files ! idx, ri_width = w, ri_height = h, ri_scale = s\<rparr>])
             (max rowh h) = (row', rowh', idx')"
          by (simp add: fill_row_fl.simps [of rnd image_files aw ah rh idx])
        from "1.IH"(2) [OF True refl refl refl Some [unfolded t] refl refl wle this] True
        show ?thesis by auto
      qed
    qed
  qed
qed

lemma fill_row_fl_progress:
  assumes "(row', r) = fill_row_fl rnd image_files aw ah rh idx rw [] rowh"
    and "(rowh', idx') = r" and "row' \<noteq> []"
  shows "idx < idx'"
proof -
  have "fill_row_fl rnd image_files aw ah rh idx rw [] rowh = (row', rowh', idx')"
    using assms(1,2) by simp
  from fill_row_fl_index [OF this] assms(3) show ?thesis by (cases row') auto
qed

text \<open>
  The outer \<^verbatim>\<open>while\<close> loop of \<^verbatim>\<open>arrange_images_on_page\<close> over floats. The branch
  \<^verbatim>\<open>else: break\<close> of \<^verbatim>\<open>if row_images and row_height <= remaining_height\<close> returns
  \<^verbatim>\<open>current_idx\<close> as the row loop left it, behind the images of the row it drops.
\<close>

function page_rows_fl ::
  "(real \<Rightarrow> real) \<Rightarrow> file_path list \<Rightarrow> real \<Rightarrow> real \<Rightarrow> nat \<Rightarrow> real
     \<Rightarrow> row_image list list \<Rightarrow> row_image list list \<times> nat" where
  "page_rows_fl rnd image_files available_width available_height
       current_idx remaining_height page_images =
     (if current_idx < length image_files \<and> remaining_height > 50 then
        case fill_row_fl rnd image_files available_width available_height remaining_height
               current_idx available_width [] 0 of
          (row_images, row_height, current_idx') \<Rightarrow>
            if row_images \<noteq> [] \<and> row_height \<le> remaining_height then
              page_rows_fl rnd image_files available_width available_height
                current_idx' (rnd (remaining_height - rnd (row_height + 10)))
                (page_images @ [row_images])
            else (page_images, current_idx')
      else (page_images, current_idx))"
  by pat_completeness auto
termination
proof (relation "measure (\<lambda>(rnd, image_files, aw, ah, current_idx, rh, pages).
        length image_files - current_idx)", goal_cases)
  case 1
  show ?case by simp
next
  case 2
  then show ?case by (auto dest: fill_row_fl_progress)
qed

declare page_rows_fl.simps [simp del]

definition arrange_images_on_page_fl ::
  "(real \<Rightarrow> real) \<Rightarrow> file_path list \<Rightarrow> nat \<Rightarrow> real \<Rightarrow> real \<Rightarrow> row_image list list \<times> nat" where
  "arrange_images_on_page_fl rnd image_files start_idx available_width available_height =
     page_rows_fl rnd image_files available_width available_height start_idx
       available_height []"

text \<open>
  \<^verbatim>\<open>available_width = A4_WIDTH - 2 * MARGIN\<close> and \<^verbatim>\<open>available_height\<close> of
  \<^verbatim>\<open>create_pdf_from_images\<close> over floats; the page size is read as a pair of floats.
\<close>

definition available_fl :: "(real \<Rightarrow> real) \<Rightarrow> real \<times> real \<Rightarrow> real \<times> real" where
  "available_fl rnd pagesize =
     (rnd (rnd (fst pagesize) - 2 * MARGIN), rnd (rnd (snd pagesize) - 2 * MARGIN))"

section \<open>Grid layout (\<^verbatim>\<open>images_to_pdf_v2.py\<close>)\<close>

text \<open>\<^verbatim>\<open>calculate_grid_layout\<close>: returns \<open>(rows, cols)\<close>.\<close>

definition calculate_grid_layout :: "nat \<Rightarrow> nat \<times> nat" where
  "calculate_grid_layout num_images =
     (if num_images = 1 then (1, 1)
      else if num_images = 2 then (1, 2)
      else if num_images \<le> 4 then (2, 2)
      else if num_images \<le> 6 then (2, 3)
      else if num_images \<le> 9 then (3, 3)
      else if num_images \<le> 12 then (3, 4)
      else if num_images \<le> 16 then (4, 4)
      else if num_images \<le> 20 then (4, 5)
      else if num_images \<le> 25 then (5, 5)
      else
        let cols = nat \<lceil>sqrt (real num_images)\<rceil>;
            rows = nat \<lceil>real num_images / real cols\<rceil>
        in (rows, cols))"

text \<open>
  The dictionaries appended to \<^verbatim>\<open>arranged_images\<close> in the grid script; the spiral script
  adds the key \<^verbatim>\<open>cell_size\<close>.
\<close>

record placement =
  pl_path :: file_path
  pl_x :: real
  pl_y :: real
  pl_width :: real
  pl_height :: real
  pl_scale :: real

record spiral_placement = placement +
  pl_cell_size :: real

text \<open>
  The body of the \<^verbatim>\<open>for i, img_path in enumerate(image_files)\<close> loop of the grid script:
  \<open>None\<close> when nothing is appended for this image.
\<close>

definition grid_loop_body ::
  "nat \<Rightarrow> real \<Rightarrow> real \<Rightarrow> real \<Rightarrow> real \<Rightarrow> nat \<times> file_path \<Rightarrow> placement option" where
  "grid_loop_body cols spacing cell_width cell_height available_height e =
     (case e of (i, img_path) \<Rightarrow>
        let row = i div cols;
            col = i mod cols;
            x = real col * (cell_width + spacing);
            y = available_height - real (row + 1) * cell_height - real row * spacing
        in case calculate_image_dimensions img_path cell_width cell_height of
             None \<Rightarrow> None
           | Some (width, height, scale) \<Rightarrow>
               let cell_center_x = x + cell_width / 2;
                   cell_center_y = y + cell_height / 2;
                   final_x = cell_center_x - width / 2;
                   final_y = cell_center_y - height / 2
               in Some \<lparr>pl_path = img_path, pl_x = final_x, pl_y = final_y,
                         pl_width = width, pl_height = height, pl_scale = scale\<rparr>)"

definition arrange_all_images_on_single_page_v2 ::
  "file_path list \<Rightarrow> real \<Rightarrow> real \<Rightarrow> placement list" where
  "arrange_all_images_on_single_page_v2 image_files available_width available_height =
     (let num_images = length image_files in
      if num_images = 0 then []
      else
        case calculate_grid_layout num_images of (rows, cols) \<Rightarrow>
          let spacing = 5;
              total_spacing_width = (real cols - 1) * spacing;
              total_spacing_height = (real rows - 1) * spacing;
              cell_width = (available_width - total_spacing_width) / real cols;
              cell_height = (available_height - total_spacing_height) / real rows
          in List.map_filter
               (grid_loop_body cols spacing cell_width cell_height available_height)
               (enumerate 0 image_files))"

text \<open>
  What the loop body yields at index \<open>i\<close> inside \<^verbatim>\<open>arrange_all_images_on_single_page\<close>,
  with the grid and the cell size computed there from \<^verbatim>\<open>len(image_files)\<close>.
\<close>

definition grid_placement_at :: "file_path list \<Rightarrow> real \<Rightarrow> real \<Rightarrow> nat \<Rightarrow> placement option" where
  "grid_placement_at image_files available_width available_height i =
     (case calculate_grid_layout (length image_files) of (rows, cols) \<Rightarrow>
        grid_loop_body cols 5
          ((available_width - (real cols - 1) * 5) / real cols)
          ((available_height - (real rows - 1) * 5) / real rows)
          available_height (i, image_files ! i))"

text \<open>
  The drawing loop shared by the grid and the spiral script: an image whose
  \<^verbatim>\<open>ImageReader\<close> or \<^verbatim>\<open>drawImage\<close> raises is logged and skipped.
\<close>

definition draw_arranged :: "('a placement_scheme) list \<Rightarrow> draw_call list" where
  "draw_arranged arranged_images =
     map (\<lambda>img_info. \<lparr>dc_path = pl_path img_info,
                        dc_x = MARGIN + pl_x img_info, dc_y = MARGIN + pl_y img_info,
                        dc_width = pl_width img_info, dc_height = pl_height img_info\<rparr>)
       (filter (\<lambda>img_info. fp_readable (pl_path img_info)) arranged_images)"

text \<open>
  \<^verbatim>\<open>create_pdf_from_images\<close> of the grid script. \<open>None\<close> is the early return after
  \<^verbatim>\<open>"No image files found."\<close> (no canvas is created); otherwise the pages of the saved
  PDF, each the list of its \<^verbatim>\<open>drawImage\<close> calls.
\<close>

definition create_pdf_from_images_v2 ::
  "real \<times> real \<Rightarrow> file_path list \<Rightarrow> draw_call list list option" where
  "create_pdf_from_images_v2 pagesize image_files =
     (if image_files = [] then None
      else
        let available_width = fst pagesize - 2 * MARGIN;
            available_height = snd pagesize - 2 * MARGIN;
            arranged_images =
              arrange_all_images_on_single_page_v2 image_files available_width available_height
        in Some [draw_arranged arranged_images])"

section \<open>Spiral layout (\<^verbatim>\<open>images_to_pdf_v3.py\<close>)\<close>

text \<open>The local variables of the loop in \<^verbatim>\<open>generate_spiral_positions\<close>.\<close>

record spiral_state =
  sp_x :: int
  sp_y :: int
  sp_dx :: int
  sp_dy :: int
  sp_steps_in_direction :: nat
  sp_steps_taken :: nat
  sp_direction_changes :: nat
  sp_positions :: "(int \<times> int) list"

text \<open>One iteration of \<^verbatim>\<open>for i in range(1, num_images)\<close>.\<close>

definition spiral_step :: "spiral_state \<Rightarrow> spiral_state" where
  "spiral_step s =
     (let x = sp_x s + sp_dx s;
          y = sp_y s + sp_dy s;
          s1 = s\<lparr>sp_x := x, sp_y := y, sp_positions := sp_positions s @ [(x, y)],
                 sp_steps_taken := sp_steps_taken s + 1\<rparr>
      in if sp_steps_taken s1 = sp_steps_in_direction s1 then
           let s2 = s1\<lparr>sp_dx := - sp_dy s1, sp_dy := sp_dx s1,
                        sp_direction_changes := sp_direction_changes s1 + 1,
                        sp_steps_taken := 0\<rparr>
           in if sp_direction_changes s2 mod 2 = 0
              then s2\<lparr>sp_steps_in_direction := sp_steps_in_direction s2 + 1\<rparr>
              else s2
         else s1)"

fun spiral_loop :: "nat \<Rightarrow> spiral_state \<Rightarrow> spiral_state" where
  "spiral_loop 0 s = s"
| "spiral_loop (Suc n) s = spiral_loop n (spiral_step s)"

definition spiral_init :: spiral_state where
  "spiral_init = \<lparr>sp_x = 0, sp_y = 0, sp_dx = 1, sp_dy = 0, sp_steps_in_direction = 1,
                   sp_steps_taken = 0, sp_direction_changes = 0, sp_positions = [(0, 0)]\<rparr>"

definition generate_spiral_positions :: "nat \<Rightarrow> (int \<times> int) list" where
  "generate_spiral_positions num_images =
     (if num_images = 0 then []
      else if num_images = 1 then [(0, 0)]
      else sp_positions (spiral_loop (num_images - 1) spiral_init))"

text \<open>
  The square spiral in the words of the specification (section 4.3), to compare
  \<^verbatim>\<open>generate_spiral_positions\<close> with: the direction starts as \<open>+x\<close> and turns by 90 degrees
  counter-clockwise after each leg; leg \<open>j\<close> has \<open>j div 2 + 1\<close> steps, so the step count
  grows by one after every second turn; the walk starts at \<open>(0, 0)\<close>.
\<close>

definition spec_turn_ccw :: "int \<times> int \<Rightarrow> int \<times> int" where
  "spec_turn_ccw d = (- snd d, fst d)"

definition spec_leg :: "nat \<Rightarrow> (int \<times> int) list" where
  "spec_leg j = replicate (j div 2 + 1) ((spec_turn_ccw ^^ j) (1, 0))"

fun spec_walk_from :: "int \<times> int \<Rightarrow> (int \<times> int) list \<Rightarrow> (int \<times> int) list" where
  "spec_walk_from p [] = [p]"
| "spec_walk_from p (d # ds) = p # spec_walk_from (fst p + fst d, snd p + snd d) ds"

definition spec_square_spiral :: "nat \<Rightarrow> (int \<times> int) list" where
  "spec_square_spiral N =
     (if N = 0 then []
      else spec_walk_from (0, 0) (take (N - 1) (concat (map spec_leg [0..<N]))))"

text \<open>Two cells of the integer grid that share an edge.\<close>

definition grid_adjacent :: "int \<times> int \<Rightarrow> int \<times> int \<Rightarrow> bool" where
  "grid_adjacent p q \<longleftrightarrow> \<bar>fst q - fst p\<bar> + \<bar>snd q - snd p\<bar> = 1"

text \<open>
  \<^verbatim>\<open>calculate_spiral_dimensions\<close>. For \<^verbatim>\<open>num_images == 0\<close> the script returns \<^verbatim>\<open>0, 0\<close>;
  the second component is rendered as the empty list.
\<close>

definition calculate_spiral_dimensions ::
  "nat \<Rightarrow> real \<Rightarrow> real \<Rightarrow> real \<times> (int \<times> int) list" where
  "calculate_spiral_dimensions num_images available_width available_height =
     (if num_images = 0 then (0, [])
      else
        let positions = generate_spiral_positions num_images;
            min_x = Min (set (map fst positions));
            max_x = Max (set (map fst positions));
            min_y = Min (set (map snd positions));
            max_y = Max (set (map snd positions));
            grid_width = max_x - min_x + 1;
            grid_height = max_y - min_y + 1;
            cell_width = available_width / real_of_int grid_width;
            cell_height = available_height / real_of_int grid_height;
            cell_size = min cell_width cell_height
        in (cell_size, positions))"

text \<open>The body of the placement loop of the spiral script, after the \<^verbatim>\<open>break\<close> test.\<close>

definition spiral_loop_body ::
  "(int \<times> int) list \<Rightarrow> real \<Rightarrow> real \<Rightarrow> real \<Rightarrow> nat \<times> file_path \<Rightarrow> spiral_placement option"
  where
  "spiral_loop_body positions cell_size offset_x offset_y e =
     (case e of (i, img_path) \<Rightarrow>
        case positions ! i of (grid_x, grid_y) \<Rightarrow>
          let x = offset_x + real_of_int grid_x * cell_size;
              y = offset_y + real_of_int grid_y * cell_size
          in case calculate_image_dimensions img_path cell_size cell_size of
               None \<Rightarrow> None
             | Some (width, height, scale) \<Rightarrow>
                 let cell_center_x = x + cell_size / 2;
                     cell_center_y = y + cell_size / 2;
                     final_x = cell_center_x - width / 2;
                     final_y = cell_center_y - height / 2
                 in Some \<lparr>pl_path = img_path, pl_x = final_x, pl_y = final_y,
                           pl_width = width, pl_height = height, pl_scale = scale,
                           pl_cell_size = cell_size\<rparr>)"

text \<open>
  \<^verbatim>\<open>arrange_all_images_on_single_page\<close> of the spiral script. The loop leaves at the first
  index \<^verbatim>\<open>i >= len(positions)\<close>, so \<^verbatim>\<open>positions[i]\<close> is always read in range.
\<close>

definition arrange_all_images_on_single_page_v3 ::
  "file_path list \<Rightarrow> real \<Rightarrow> real \<Rightarrow> spiral_placement list" where
  "arrange_all_images_on_single_page_v3 image_files available_width available_height =
     (let num_images = length image_files in
      if num_images = 0 then []
      else
        case calculate_spiral_dimensions num_images available_width available_height of
          (cell_size, positions) \<Rightarrow>
            let min_x = Min (set (map fst positions));
                max_x = Max (set (map fst positions));
                min_y = Min (set (map snd positions));
                max_y = Max (set (map snd positions));
                spiral_width = real_of_int (max_x - min_x + 1) * cell_size;
                spiral_height = real_of_int (max_y - min_y + 1) * cell_size;
                offset_x = (available_width - spiral_width) / 2 - real_of_int min_x * cell_size;
                offset_y = (available_height - spiral_height) / 2 - real_of_int min_y * cell_size
            in List.map_filter (spiral_loop_body positions cell_size offset_x offset_y)
                 (takeWhile (\<lambda>e. fst e < length positions) (enumerate 0 image_files)))"


definition create_pdf_from_images_v3 ::
  "real \<times> real \<Rightarrow> file_path list \<Rightarrow> draw_call list list option" where
  "create_pdf_from_images_v3 pagesize image_files =
     (if image_files = [] then None
      else
        let available_width = fst pagesize - 2 * MARGIN;
            available_height = snd pagesize - 2 * MARGIN;
            arranged_images =
              arrange_all_images_on_single_page_v3 image_files available_width available_height
        in Some [draw_arranged arranged_images])"

section \<open>Folder scan and entry point\<close>

definition SUPPORTED_FORMATS :: "string set" where
  "SUPPORTED_FORMATS =
     {''.jpg'', ''.jpeg'', ''.png'', ''.gif'', ''.bmp'', ''.tiff'', ''.tif'', ''.webp''}"

text \<open>\<^verbatim>\<open>str.lower\<close>, on ASCII letters.\<close>

definition char_lower :: "char \<Rightarrow> char" where
  "char_lower c =
     (case map_of (zip ''ABCDEFGHIJKLMNOPQRSTUVWXYZ'' ''abcdefghijklmnopqrstuvwxyz'') c of
        None \<Rightarrow> c
      | Some l \<Rightarrow> l)"

definition lower :: "string \<Rightarrow> string" where
  "lower = map char_lower"

text \<open>
  \<^verbatim>\<open>get_image_files\<close>. The folder is \<open>None\<close> when it does not exist, otherwise the
  entries \<^verbatim>\<open>iterdir()\<close> yields, in that order.
\<close>

datatype error = FileNotFoundError

definition get_image_files :: "file_path list option \<Rightarrow> error + file_path list" where
  "get_image_files folder =
     (case folder of
        None \<Rightarrow> Inl FileNotFoundError
      | Some entries \<Rightarrow>
          Inr (sort_key (\<lambda>x. lower (fp_name x))
                 (filter (\<lambda>file_path. fp_is_file file_path
                            \<and> lower (fp_suffix file_path) \<in> SUPPORTED_FORMATS) entries)))"

text \<open>
  \<^verbatim>\<open>main\<close>, the same in the three scripts but for the \<^verbatim>\<open>create_pdf_from_images\<close> it
  calls. \<open>Exit_1\<close> is the \<^verbatim>\<open>except\<close> branch (\<^verbatim>\<open>"Error: ..."\<close>, \<^verbatim>\<open>sys.exit(1)\<close>);
  \<open>No_Supported_Images\<close> is the branch that prints
  \<^verbatim>\<open>"No supported image files found in: ..."\<close> and returns; \<open>Returned\<close> carries what
  \<^verbatim>\<open>create_pdf_from_images\<close> returned.
\<close>

datatype outcome =
    Exit_1 error
  | No_Supported_Images
  | Returned "draw_call list list option"

definition main_v1 :: "real \<times> real \<Rightarrow> file_path list option \<Rightarrow> outcome" where
  "main_v1 pagesize folder =
     (case get_image_files folder of
        Inl e \<Rightarrow> Exit_1 e
      | Inr image_files \<Rightarrow>
          if image_files = [] then No_Supported_Images
          else Returned (create_pdf_from_images_v1 pagesize image_files))"

definition main_v2 :: "real \<times> real \<Rightarrow> file_path list option \<Rightarrow> outcome" where
  "main_v2 pagesize folder =
     (case get_image_files folder of
        Inl e \<Rightarrow> Exit_1 e
      | Inr image_files \<Rightarrow>
          if image_files = [] then No_Supported_Images
          else Returned (create_pdf_from_images_v2 pagesize image_files))"

definition main_v3 :: "real \<times> real \<Rightarrow> file_path list option \<Rightarrow> outcome" where
  "main_v3 pagesize folder =
     (case get_image_files folder of
        Inl e \<Rightarrow> Exit_1 e
      | Inr image_files \<Rightarrow>
          if image_files = [] then No_Supported_Images
          else Returned (create_pdf_from_images_v3 pagesize image_files))"

section \<open>Notions used in the statements\<close>

text \<open>The height the drawing loop gives a row.\<close>

definition drawn_row_height :: "row_image list \<Rightarrow> real" where
  "drawn_row_height row = Max (set (map ri_height row))"









text \<open>
  A rounding function with relative error at most \<open>eps\<close>. Rounding to binary64 has
  \<open>eps = 1 / 2 ^ 53\<close>, the identity has \<open>eps = 0\<close>.
\<close>

definition rounds_within :: "(real \<Rightarrow> real) \<Rightarrow> real \<Rightarrow> bool" where
  "rounds_within rnd eps \<longleftrightarrow> 0 \<le> eps \<and> eps \<le> 1 \<and> (\<forall>x. \<bar>rnd x - x\<bar> \<le> eps * \<bar>x\<bar>)"

section \<open>Invariants used in the proofs\<close>

text \<open>
  Bookkeeping for the proof that the spiral visits no cell twice: the walk is in ring
  \<open>m\<close>, on leg \<open>ph\<close> of that ring (0 to the right, 1 up, 2 to the left, 3 down), \<open>t\<close>
  steps into the leg. \<open>visited\<close> describes the cells seen so far: a full rectangle and
  the part of the current leg already walked. \<open>spiral_inv\<close> ties the loop variables to this
  bookkeeping.
\<close>

definition leg_len :: "int \<Rightarrow> nat \<Rightarrow> int" where
  "leg_len m ph = (if ph < 2 then 2 * m + 1 else 2 * m + 2)"

definition ph_dir :: "nat \<Rightarrow> int \<times> int" where
  "ph_dir ph = (if ph = 0 then (1, 0) else if ph = 1 then (0, 1)
                else if ph = 2 then (- 1, 0) else (0, - 1))"

definition ph_pos :: "int \<times> nat \<times> int \<Rightarrow> int \<times> int" where
  "ph_pos tr = (case tr of (m, ph, t) \<Rightarrow>
     if ph = 0 then (- m + t, - m) else if ph = 1 then (m + 1, - m + t)
     else if ph = 2 then (m + 1 - t, m + 1) else (- m - 1, m + 1 - t))"

definition visited :: "int \<times> nat \<times> int \<Rightarrow> int \<times> int \<Rightarrow> bool" where
  "visited tr p = (case tr of (m, ph, t) \<Rightarrow> case p of (px, py) \<Rightarrow>
     if ph = 0 then (- m \<le> px \<and> px \<le> m \<and> - m + 1 \<le> py \<and> py \<le> m)
                    \<or> (py = - m \<and> - m \<le> px \<and> px \<le> - m + t)
     else if ph = 1 then (- m \<le> px \<and> px \<le> m \<and> - m \<le> py \<and> py \<le> m)
                    \<or> (px = m + 1 \<and> - m \<le> py \<and> py \<le> - m + t)
     else if ph = 2 then (- m \<le> px \<and> px \<le> m + 1 \<and> - m \<le> py \<and> py \<le> m)
                    \<or> (py = m + 1 \<and> m + 1 - t \<le> px \<and> px \<le> m + 1)
     else (- m \<le> px \<and> px \<le> m + 1 \<and> - m \<le> py \<and> py \<le> m + 1)
                    \<or> (px = - m - 1 \<and> m + 1 - t \<le> py \<and> py \<le> m + 1))"

definition phase_ok :: "int \<times> nat \<times> int \<Rightarrow> bool" where
  "phase_ok tr = (case tr of (m, ph, t) \<Rightarrow> 0 \<le> m \<and> ph < 4 \<and> 0 \<le> t \<and> t < leg_len m ph)"

definition nxt :: "int \<times> nat \<times> int \<Rightarrow> int \<times> nat \<times> int" where
  "nxt tr = (case tr of (m, ph, t) \<Rightarrow>
     if t + 1 < leg_len m ph then (m, ph, t + 1)
     else if ph = 3 then (m + 1, 0, 0) else (m, ph + 1, 0))"

definition spiral_inv :: "int \<times> nat \<times> int \<Rightarrow> spiral_state \<Rightarrow> bool" where
  "spiral_inv tr s \<longleftrightarrow>
     phase_ok tr
     \<and> (case tr of (m, ph, t) \<Rightarrow>
          int (sp_direction_changes s) = 4 * m + int ph
        \<and> int (sp_steps_in_direction s) = leg_len m ph
        \<and> int (sp_steps_taken s) = t
        \<and> (sp_dx s, sp_dy s) = ph_dir ph)
     \<and> (sp_x s, sp_y s) = ph_pos tr
     \<and> (\<forall>p. p \<in> set (sp_positions s) \<longleftrightarrow> visited tr p)
     \<and> distinct (sp_positions s)"

text \<open>
  \<open>walk_inv ds s\<close>: the steps \<open>ds\<close> taken so far are the complete legs before the current
  one and the part of the current leg already walked.
\<close>

definition walk_inv :: "(int \<times> int) list \<Rightarrow> spiral_state \<Rightarrow> bool" where
  "walk_inv ds s \<longleftrightarrow>
     sp_steps_in_direction s = sp_direction_changes s div 2 + 1
     \<and> sp_steps_taken s < sp_steps_in_direction s
     \<and> (sp_dx s, sp_dy s) = (spec_turn_ccw ^^ sp_direction_changes s) (1, 0)
     \<and> ds = concat (map spec_leg [0..<sp_direction_changes s])
            @ replicate (sp_steps_taken s) (sp_dx s, sp_dy s)
     \<and> sp_positions s = spec_walk_from (0, 0) ds
     \<and> last (sp_positions s) = (sp_x s, sp_y s)"

text \<open>
  \<open>row_entry_of\<close>: the row entry \<open>r\<close> was made from an image with index in \<open>[lo, hi)\<close>,
  fitted into the box of some remaining width above 50 and the remaining height \<open>rh\<close>.
\<close>

definition row_entry_of ::
  "file_path list \<Rightarrow> real \<Rightarrow> real \<Rightarrow> real \<Rightarrow> nat \<Rightarrow> nat \<Rightarrow> row_image \<Rightarrow> bool" where
  "row_entry_of image_files aw ah rh lo hi r \<longleftrightarrow>
     (\<exists>j rw0. lo \<le> j \<and> j < hi \<and> j < length image_files \<and> ri_path r = image_files ! j
        \<and> 50 < rw0
        \<and> calculate_image_dimensions (ri_path r) (min rw0 (aw * 0.8)) (min rh (ah * 0.6))
            = Some (ri_width r, ri_height r, ri_scale r))"

text \<open>A row as \<open>arrange_images_on_page\<close> builds it: not empty, fitted entries, within the width.\<close>

definition row_ok :: "file_path list \<Rightarrow> real \<Rightarrow> real \<Rightarrow> row_image list \<Rightarrow> bool" where
  "row_ok image_files aw ah row \<longleftrightarrow>
     row \<noteq> []
     \<and> (\<forall>r \<in> set row. \<exists>rh0 lo hi. 50 < rh0 \<and> row_entry_of image_files aw ah rh0 lo hi r)
     \<and> sum_list (map ri_width row) + 10 * (real (length row) - 1) \<le> aw"



section \<open>Grid dimensions\<close>

lemma ceil_sqrt_unique:
  fixes c n :: nat
  assumes "0 < c" and "(c - 1) * (c - 1) < n" and "n \<le> c * c"
  shows "nat \<lceil>sqrt (real n)\<rceil> = c"
proof -
  have up: "sqrt (real n) \<le> real c"
  proof (rule real_le_lsqrt)
    show "real n \<le> (real c)\<^sup>2"
      using assms(3) by (metis of_nat_le_iff of_nat_mult power2_eq_square)
  qed simp_all
  have "(real (c - 1))\<^sup>2 < real n"
    using assms(2) by (metis of_nat_less_iff of_nat_mult power2_eq_square)
  then have "real (c - 1) < sqrt (real n)"
    by (rule real_less_rsqrt)
  then have lo: "real_of_int (int c) - 1 < sqrt (real n)"
    using assms(1) by (simp add: of_nat_diff)
  have "\<lceil>sqrt (real n)\<rceil> = int c"
    by (rule ceiling_unique) (use lo up in simp_all)
  then show ?thesis by simp
qed

lemma ceil_sqrt_bounds:
  fixes n :: nat
  assumes "0 < n"
  defines "c \<equiv> nat \<lceil>sqrt (real n)\<rceil>"
  shows "0 < c" and "n \<le> c * c" and "(c - 1) * (c - 1) < n"
proof -
  have pos: "0 < sqrt (real n)" using assms(1) by simp
  then have cpos: "0 < \<lceil>sqrt (real n)\<rceil>" by (simp add: ceiling_less_iff)
  then show "0 < c" by (simp add: c_def)
  have rc: "real c = of_int \<lceil>sqrt (real n)\<rceil>"
    using cpos by (simp add: c_def)
  have "sqrt (real n) \<le> real c" by (simp add: rc)
  then have "(sqrt (real n))\<^sup>2 \<le> (real c)\<^sup>2"
    using pos by (intro power_mono) simp_all
  then have "real n \<le> real (c * c)" by (simp add: power2_eq_square)
  then show "n \<le> c * c" by (simp only: of_nat_le_iff)
  have "real c - 1 < sqrt (real n)"
    unfolding rc by linarith
  moreover have "0 \<le> real c - 1" using \<open>0 < c\<close> by simp
  ultimately have "(real c - 1)\<^sup>2 < (sqrt (real n))\<^sup>2"
    by (intro power_strict_mono) simp_all
  then have "real ((c - 1) * (c - 1)) < real n"
    using \<open>0 < c\<close> by (simp add: power2_eq_square of_nat_diff)
  then show "(c - 1) * (c - 1) < n" by (simp only: of_nat_less_iff)
qed

lemma ceil_div_bounds:
  fixes n c :: nat
  assumes "0 < c"
  defines "r \<equiv> nat \<lceil>real n / real c\<rceil>"
  shows "n \<le> r * c" and "r * c < n + c"
proof -
  have "0 \<le> real n / real c" by simp
  then have nonneg: "0 \<le> \<lceil>real n / real c\<rceil>"
    by (metis ceiling_mono ceiling_zero)
  have rr: "real r = of_int \<lceil>real n / real c\<rceil>"
    using nonneg by (simp add: r_def)
  have "real n / real c \<le> real r" by (simp add: rr)
  then have "real n \<le> real r * real c"
    using assms(1) by (simp add: field_simps)
  then have "real n \<le> real (r * c)" by simp
  then show "n \<le> r * c" by (simp only: of_nat_le_iff)
  have "real r < real n / real c + 1"
    unfolding rr by linarith
  then have "real r * real c < real n + real c"
    using assms(1) by (simp add: field_simps)
  then have "real (r * c) < real (n + c)" by simp
  then show "r * c < n + c" by (simp only: of_nat_less_iff)
qed

lemma grid_layout_large:
  assumes "25 < N"
  shows "calculate_grid_layout N =
           (nat \<lceil>real N / real (nat \<lceil>sqrt (real N)\<rceil>)\<rceil>, nat \<lceil>sqrt (real N)\<rceil>)"
  using assms by (simp add: calculate_grid_layout_def Let_def)

lemma grid_layout_30: "calculate_grid_layout 30 = (5, 6)"
proof -
  have c: "nat \<lceil>sqrt (real (30::nat))\<rceil> = 6"
    by (rule ceil_sqrt_unique) simp_all
  have "\<lceil>real (30::nat) / real (6::nat)\<rceil> = 5"
    by (rule ceiling_unique) simp_all
  then have r: "nat \<lceil>real (30::nat) / real (6::nat)\<rceil> = 5" by simp
  show ?thesis
    using grid_layout_large [of 30] by (simp only: c r)
qed

lemma grid_layout_covers:
  assumes "1 \<le> N"
  shows "N \<le> fst (calculate_grid_layout N) * snd (calculate_grid_layout N)"
    and "fst (calculate_grid_layout N) * snd (calculate_grid_layout N)
           < N + max (fst (calculate_grid_layout N)) (snd (calculate_grid_layout N))"
proof -
  let ?c = "nat \<lceil>sqrt (real N)\<rceil>"
  let ?r = "nat \<lceil>real N / real ?c\<rceil>"
  have cpos: "0 < ?c" using ceil_sqrt_bounds(1) [of N] assms by simp
  have big: "N \<le> ?r * ?c" "?r * ?c < N + ?c"
    using ceil_div_bounds [OF cpos, of N] by simp_all
  show "N \<le> fst (calculate_grid_layout N) * snd (calculate_grid_layout N)"
    using assms big(1) by (simp add: calculate_grid_layout_def Let_def)
  have "?r * ?c < N + max ?r ?c" using big(2) by simp
  then show "fst (calculate_grid_layout N) * snd (calculate_grid_layout N)
           < N + max (fst (calculate_grid_layout N)) (snd (calculate_grid_layout N))"
    using assms by (simp add: calculate_grid_layout_def Let_def)
qed

text \<open>
  Claim C2. For every image count \<open>N \<ge> 1\<close> the grid is the one of the lookup table
  (1 gives 1x1, 2 gives 1x2, up to 4 gives 2x2, up to 6 gives 2x3, up to 9 gives 3x3, up to
  12 gives 3x4, up to 16 gives 4x4, up to 20 gives 4x5, up to 25 gives 5x5); above 25 the
  columns are the ceiling of the square root of \<open>N\<close> and the rows the ceiling of \<open>N\<close>
  over the columns; 30 images get 5 rows of 6 columns; and always
  \<open>rows * cols \<ge> N\<close> and \<open>rows * cols < N + max rows cols\<close>.
\<close>

theorem grid_layout_table:
  assumes "1 \<le> N"
  shows "(N = 1 \<longrightarrow> calculate_grid_layout N = (1, 1))
       \<and> (N = 2 \<longrightarrow> calculate_grid_layout N = (1, 2))
       \<and> (3 \<le> N \<and> N \<le> 4 \<longrightarrow> calculate_grid_layout N = (2, 2))
       \<and> (5 \<le> N \<and> N \<le> 6 \<longrightarrow> calculate_grid_layout N = (2, 3))
       \<and> (7 \<le> N \<and> N \<le> 9 \<longrightarrow> calculate_grid_layout N = (3, 3))
       \<and> (10 \<le> N \<and> N \<le> 12 \<longrightarrow> calculate_grid_layout N = (3, 4))
       \<and> (13 \<le> N \<and> N \<le> 16 \<longrightarrow> calculate_grid_layout N = (4, 4))
       \<and> (17 \<le> N \<and> N \<le> 20 \<longrightarrow> calculate_grid_layout N = (4, 5))
       \<and> (21 \<le> N \<and> N \<le> 25 \<longrightarrow> calculate_grid_layout N = (5, 5))
       \<and> (25 < N \<longrightarrow>
            snd (calculate_grid_layout N) = nat \<lceil>sqrt (real N)\<rceil>
          \<and> fst (calculate_grid_layout N)
              = nat \<lceil>real N / real (snd (calculate_grid_layout N))\<rceil>)
       \<and> calculate_grid_layout 30 = (5, 6)
       \<and> N \<le> fst (calculate_grid_layout N) * snd (calculate_grid_layout N)
       \<and> fst (calculate_grid_layout N) * snd (calculate_grid_layout N)
           < N + max (fst (calculate_grid_layout N)) (snd (calculate_grid_layout N))"
proof -
  have small: "(N = 1 \<longrightarrow> calculate_grid_layout N = (1, 1))
       \<and> (N = 2 \<longrightarrow> calculate_grid_layout N = (1, 2))
       \<and> (3 \<le> N \<and> N \<le> 4 \<longrightarrow> calculate_grid_layout N = (2, 2))
       \<and> (5 \<le> N \<and> N \<le> 6 \<longrightarrow> calculate_grid_layout N = (2, 3))
       \<and> (7 \<le> N \<and> N \<le> 9 \<longrightarrow> calculate_grid_layout N = (3, 3))
       \<and> (10 \<le> N \<and> N \<le> 12 \<longrightarrow> calculate_grid_layout N = (3, 4))
       \<and> (13 \<le> N \<and> N \<le> 16 \<longrightarrow> calculate_grid_layout N = (4, 4))
       \<and> (17 \<le> N \<and> N \<le> 20 \<longrightarrow> calculate_grid_layout N = (4, 5))
       \<and> (21 \<le> N \<and> N \<le> 25 \<longrightarrow> calculate_grid_layout N = (5, 5))"
    by (simp add: calculate_grid_layout_def)
  have large: "25 < N \<longrightarrow>
            snd (calculate_grid_layout N) = nat \<lceil>sqrt (real N)\<rceil>
          \<and> fst (calculate_grid_layout N)
              = nat \<lceil>real N / real (snd (calculate_grid_layout N))\<rceil>"
    by (simp add: grid_layout_large)
  show ?thesis
    using small large grid_layout_30 grid_layout_covers [OF assms] by blast
qed

theorem grid_layout_table_witness:
  "calculate_grid_layout 30 = (5, 6) \<and> calculate_grid_layout 7 = (3, 3)
   \<and> (30::nat) \<le> 5 * 6 \<and> (5::nat) * 6 < 30 + max 5 6
   \<and> snd (calculate_grid_layout 30) = nat \<lceil>sqrt (real (30::nat))\<rceil>"
  using grid_layout_table [of 30] grid_layout_table [of 7] by simp

section \<open>Spiral positions\<close>

subsection \<open>No cell is visited twice\<close>

lemma ph_cases: "ph < (4::nat) \<Longrightarrow> ph = 0 \<or> ph = 1 \<or> ph = 2 \<or> ph = 3"
  by arith

lemma nxt_ok: "phase_ok tr \<Longrightarrow> phase_ok (nxt tr)"
  by (cases tr) (auto simp: phase_ok_def nxt_def leg_len_def)

lemma nxt_pos:
  assumes "phase_ok (m, ph, t)"
  shows "ph_pos (nxt (m, ph, t))
         = (fst (ph_pos (m, ph, t)) + fst (ph_dir ph), snd (ph_pos (m, ph, t)) + snd (ph_dir ph))"
  using assms ph_cases [of ph]
  by (auto simp: phase_ok_def nxt_def leg_len_def ph_pos_def ph_dir_def)

lemma nxt_fresh:
  assumes "phase_ok tr"
  shows "\<not> visited tr (ph_pos (nxt tr))"
proof -
  obtain m ph t where tr: "tr = (m, ph, t)" by (cases tr)
  show ?thesis
    using assms ph_cases [of ph] unfolding tr
    by (auto simp: phase_ok_def nxt_def leg_len_def ph_pos_def visited_def)
qed

lemma nxt_visited:
  assumes "phase_ok tr"
  shows "visited (nxt tr) p \<longleftrightarrow> visited tr p \<or> p = ph_pos (nxt tr)"
proof -
  obtain m ph t where tr: "tr = (m, ph, t)" by (cases tr)
  obtain px py where p: "p = (px, py)" by (cases p)
  from assms have "ph = 0 \<or> ph = 1 \<or> ph = 2 \<or> ph = 3"
    unfolding tr by (auto simp: phase_ok_def intro: ph_cases)
  then show ?thesis
  proof (elim disjE)
    assume "ph = 0"
    with assms show ?thesis unfolding tr p
      by (auto simp: phase_ok_def nxt_def leg_len_def ph_pos_def visited_def)
  next
    assume "ph = 1"
    with assms show ?thesis unfolding tr p
      by (auto simp: phase_ok_def nxt_def leg_len_def ph_pos_def visited_def)
  next
    assume "ph = 2"
    with assms show ?thesis unfolding tr p
      by (auto simp: phase_ok_def nxt_def leg_len_def ph_pos_def visited_def)
  next
    assume "ph = 3"
    with assms show ?thesis unfolding tr p
      by (auto simp: phase_ok_def nxt_def leg_len_def ph_pos_def visited_def)
  qed
qed

lemma spiral_init_inv: "spiral_inv (0, 0, 0) spiral_init"
  by (auto simp: spiral_inv_def spiral_init_def phase_ok_def leg_len_def ph_dir_def
      ph_pos_def visited_def)

lemma parity_of_changes:
  fixes c :: nat
  assumes "int c = 4 * m + int ph"
  shows "(c + 1) mod 2 = (ph + 1) mod 2"
proof -
  from assms have "int (c + 1) = 4 * m + int (ph + 1)" by simp
  then have "int (c + 1) mod 2 = int (ph + 1) mod 2" by presburger
  then have "int ((c + 1) mod 2) = int ((ph + 1) mod 2)"
    by (simp only: of_nat_mod of_nat_numeral)
  then show ?thesis by (simp only: of_nat_eq_iff)
qed

lemma spiral_step_fields:
  assumes "spiral_inv (m, ph, t) s"
  shows "sp_x (spiral_step s) = sp_x s + sp_dx s"
    and "sp_y (spiral_step s) = sp_y s + sp_dy s"
    and "sp_positions (spiral_step s) = sp_positions s @ [(sp_x s + sp_dx s, sp_y s + sp_dy s)]"
  by (simp_all add: spiral_step_def Let_def)

lemma spiral_step_control:
  assumes "spiral_inv (m, ph, t) s" and "nxt (m, ph, t) = (m', ph', t')"
  shows "int (sp_direction_changes (spiral_step s)) = 4 * m' + int ph'"
    and "int (sp_steps_in_direction (spiral_step s)) = leg_len m' ph'"
    and "int (sp_steps_taken (spiral_step s)) = t'"
    and "(sp_dx (spiral_step s), sp_dy (spiral_step s)) = ph_dir ph'"
proof -
  from assms(1) have ok: "0 \<le> m" "ph < 4" "0 \<le> t" "t < leg_len m ph"
    and c: "int (sp_direction_changes s) = 4 * m + int ph"
    and k: "int (sp_steps_in_direction s) = leg_len m ph"
    and tk: "int (sp_steps_taken s) = t"
    and dd: "(sp_dx s, sp_dy s) = ph_dir ph"
    by (auto simp: spiral_inv_def phase_ok_def)
  have d: "sp_dx s = fst (ph_dir ph)" "sp_dy s = snd (ph_dir ph)"
    using dd by (metis fst_conv, metis snd_conv)
  have par: "(sp_direction_changes s + 1) mod 2 = (ph + 1) mod 2"
    by (rule parity_of_changes [OF c])
  have turn: "sp_steps_taken s + 1 = sp_steps_in_direction s \<longleftrightarrow> \<not> t + 1 < leg_len m ph"
    using k tk ok by linarith
  note defs = spiral_step_def Let_def nxt_def leg_len_def ph_dir_def
  have "int (sp_direction_changes (spiral_step s)) = 4 * m' + int ph'
      \<and> int (sp_steps_in_direction (spiral_step s)) = leg_len m' ph'
      \<and> int (sp_steps_taken (spiral_step s)) = t'
      \<and> (sp_dx (spiral_step s), sp_dy (spiral_step s)) = ph_dir ph'"
    using ph_cases [OF ok(2)]
  proof (elim disjE)
    assume "ph = 0"
    with assms(2) turn par c k tk d show ?thesis
      by (auto simp: defs split: if_splits)
  next
    assume "ph = 1"
    with assms(2) turn par c k tk d show ?thesis
      by (auto simp: defs split: if_splits)
  next
    assume "ph = 2"
    with assms(2) turn par c k tk d show ?thesis
      by (auto simp: defs split: if_splits)
  next
    assume "ph = 3"
    with assms(2) turn par c k tk d show ?thesis
      by (auto simp: defs split: if_splits)
  qed
  then show "int (sp_direction_changes (spiral_step s)) = 4 * m' + int ph'"
    and "int (sp_steps_in_direction (spiral_step s)) = leg_len m' ph'"
    and "int (sp_steps_taken (spiral_step s)) = t'"
    and "(sp_dx (spiral_step s), sp_dy (spiral_step s)) = ph_dir ph'"
    by simp_all
qed

lemma spiral_step_inv:
  assumes "spiral_inv tr s"
  shows "spiral_inv (nxt tr) (spiral_step s)"
proof -
  obtain m ph t where tr: "tr = (m, ph, t)" by (cases tr)
  obtain m' ph' t' where n: "nxt (m, ph, t) = (m', ph', t')" by (cases "nxt (m, ph, t)")
  from assms have ok: "phase_ok (m, ph, t)"
    and d: "(sp_dx s, sp_dy s) = ph_dir ph"
    and pos: "(sp_x s, sp_y s) = ph_pos (m, ph, t)"
    and vis: "\<And>p. p \<in> set (sp_positions s) \<longleftrightarrow> visited (m, ph, t) p"
    and dist: "distinct (sp_positions s)"
    unfolding tr by (auto simp: spiral_inv_def)
  have newpos: "(sp_x s + sp_dx s, sp_y s + sp_dy s) = ph_pos (nxt (m, ph, t))"
    using nxt_pos [OF ok] d pos by (metis fst_conv snd_conv)
  have fresh: "(sp_x s + sp_dx s, sp_y s + sp_dy s) \<notin> set (sp_positions s)"
    using nxt_fresh [OF ok] vis newpos by simp
  note f = spiral_step_fields [OF assms [unfolded tr]]
  note c = spiral_step_control [OF assms [unfolded tr] n]
  have "phase_ok (m', ph', t')" using nxt_ok [OF ok] n by simp
  moreover have "(sp_x (spiral_step s), sp_y (spiral_step s)) = ph_pos (m', ph', t')"
    using newpos n f by simp
  moreover have "\<forall>p. p \<in> set (sp_positions (spiral_step s)) \<longleftrightarrow> visited (m', ph', t') p"
    using nxt_visited [OF ok] vis newpos n f by auto
  moreover have "distinct (sp_positions (spiral_step s))"
    using dist fresh f by simp
  ultimately show ?thesis
    unfolding tr n spiral_inv_def using c by simp
qed

lemma spiral_loop_inv:
  "spiral_inv tr s \<Longrightarrow> \<exists>tr'. spiral_inv tr' (spiral_loop n s)"
proof (induction n arbitrary: tr s)
  case 0
  then show ?case by (simp del: split_paired_Ex) blast
next
  case (Suc n)
  from Suc.IH [OF spiral_step_inv [OF Suc.prems]] show ?case by simp
qed

lemma spiral_loop_distinct: "distinct (sp_positions (spiral_loop n spiral_init))"
  using spiral_loop_inv [OF spiral_init_inv, of n] by (auto simp: spiral_inv_def)

lemma generate_spiral_positions_distinct: "distinct (generate_spiral_positions N)"
  by (simp add: generate_spiral_positions_def spiral_loop_distinct)

subsection \<open>Length and first cell\<close>

lemma spiral_step_positions:
  "sp_positions (spiral_step s) = sp_positions s @ [(sp_x s + sp_dx s, sp_y s + sp_dy s)]"
  by (simp add: spiral_step_def Let_def)

lemma spiral_loop_length:
  "length (sp_positions (spiral_loop n s)) = length (sp_positions s) + n"
  by (induction n arbitrary: s) (simp_all add: spiral_step_positions)

lemma generate_spiral_positions_length: "length (generate_spiral_positions N) = N"
  by (simp add: generate_spiral_positions_def spiral_loop_length spiral_init_def)

lemma spiral_loop_prefix:
  "\<exists>ys. sp_positions (spiral_loop n s) = sp_positions s @ ys"
proof (induction n arbitrary: s)
  case 0
  show ?case by simp
next
  case (Suc n)
  obtain ys where "sp_positions (spiral_loop n (spiral_step s)) = sp_positions (spiral_step s) @ ys"
    using Suc.IH by blast
  then show ?case by (simp add: spiral_step_positions)
qed

lemma generate_spiral_positions_first:
  assumes "1 \<le> N"
  shows "generate_spiral_positions N ! 0 = (0, 0)"
proof -
  obtain ys where "sp_positions (spiral_loop (N - 1) spiral_init) = sp_positions spiral_init @ ys"
    using spiral_loop_prefix by blast
  then show ?thesis
    using assms by (simp add: generate_spiral_positions_def spiral_init_def)
qed

subsection \<open>The loop walks the legs of the square spiral\<close>

lemma spec_walk_from_nonempty: "spec_walk_from p ds \<noteq> []"
  by (cases ds) simp_all

lemma spec_walk_from_snoc:
  "spec_walk_from p (ds @ [d])
   = spec_walk_from p ds
     @ [(fst (last (spec_walk_from p ds)) + fst d, snd (last (spec_walk_from p ds)) + snd d)]"
  by (induction ds arbitrary: p) (simp_all add: spec_walk_from_nonempty)

lemma walk_inv_init: "walk_inv [] spiral_init"
  by (simp add: walk_inv_def spiral_init_def)

lemma walk_inv_step:
  assumes "walk_inv ds s"
  shows "walk_inv (ds @ [(sp_dx s, sp_dy s)]) (spiral_step s)"
proof -
  let ?c = "sp_direction_changes s" and ?t = "sp_steps_taken s"
  let ?k = "sp_steps_in_direction s" and ?d = "(sp_dx s, sp_dy s)"
  from assms have k: "?k = ?c div 2 + 1" and t: "?t < ?k"
    and d: "?d = (spec_turn_ccw ^^ ?c) (1, 0)"
    and ds: "ds = concat (map spec_leg [0..<?c]) @ replicate ?t ?d"
    and ps: "sp_positions s = spec_walk_from (0, 0) ds"
    and l: "last (sp_positions s) = (sp_x s, sp_y s)"
    unfolding walk_inv_def by blast+
  have ps': "sp_positions (spiral_step s) = spec_walk_from (0, 0) (ds @ [?d])"
    by (simp add: spiral_step_positions spec_walk_from_snoc ps [symmetric] l)
  have l': "last (sp_positions (spiral_step s)) = (sp_x (spiral_step s), sp_y (spiral_step s))"
    by (simp add: spiral_step_def Let_def)
  show ?thesis
  proof (cases "?t + 1 = ?k")
    case False
    then have same: "sp_direction_changes (spiral_step s) = ?c"
      "sp_steps_in_direction (spiral_step s) = ?k"
      "sp_steps_taken (spiral_step s) = ?t + 1"
      "sp_dx (spiral_step s) = sp_dx s" "sp_dy (spiral_step s) = sp_dy s"
      by (simp_all add: spiral_step_def Let_def)
    have "ds @ [?d] = concat (map spec_leg [0..<?c]) @ replicate (?t + 1) ?d"
      by (simp add: ds replicate_append_same)
    with False t k d ps' l' show ?thesis
      unfolding walk_inv_def same by simp
  next
    case True
    then have turn: "sp_direction_changes (spiral_step s) = ?c + 1"
      "sp_steps_in_direction (spiral_step s) = (if (?c + 1) mod 2 = 0 then ?k + 1 else ?k)"
      "sp_steps_taken (spiral_step s) = 0"
      "sp_dx (spiral_step s) = - sp_dy s" "sp_dy (spiral_step s) = sp_dx s"
      by (simp_all add: spiral_step_def Let_def)
    have leg: "spec_leg ?c = replicate ?t ?d @ [?d]"
      using True k d by (simp add: spec_leg_def replicate_append_same)
    have "ds @ [?d] = concat (map spec_leg [0..<?c + 1]) @ replicate 0 (- sp_dy s, sp_dx s)"
      by (simp add: ds leg)
    moreover have "(if (?c + 1) mod 2 = 0 then ?k + 1 else ?k) = (?c + 1) div 2 + 1"
      unfolding k by presburger
    moreover have "(- sp_dy s, sp_dx s) = (spec_turn_ccw ^^ (?c + 1)) (1, 0)"
      using d by (simp add: spec_turn_ccw_def) (metis fst_conv snd_conv)
    ultimately show ?thesis
      unfolding walk_inv_def turn using ps' l' by simp
  qed
qed

lemma walk_inv_loop:
  "walk_inv ds s \<Longrightarrow> \<exists>ds'. length ds' = length ds + n \<and> walk_inv ds' (spiral_loop n s)"
proof (induction n arbitrary: ds s)
  case 0
  then show ?case by auto
next
  case (Suc n)
  from Suc.IH [OF walk_inv_step [OF Suc.prems]] show ?case by auto
qed

lemma spec_leg_length: "length (spec_leg j) = j div 2 + 1"
  by (simp add: spec_leg_def)

lemma legs_length_ge: "c \<le> length (concat (map spec_leg [0..<c]))"
  by (induction c) (simp_all add: spec_leg_length)

lemma walk_inv_take:
  assumes "walk_inv ds s" and "length ds < N"
  shows "ds = take (length ds) (concat (map spec_leg [0..<N]))"
proof -
  let ?c = "sp_direction_changes s" and ?t = "sp_steps_taken s"
  let ?pre = "concat (map spec_leg [0..<?c])"
  from assms(1) have ds: "ds = ?pre @ replicate ?t (sp_dx s, sp_dy s)"
    and t: "?t < ?c div 2 + 1"
    and d: "(sp_dx s, sp_dy s) = (spec_turn_ccw ^^ ?c) (1, 0)"
    unfolding walk_inv_def by (blast, simp, blast)
  have "?c \<le> length ds" using legs_length_ge [of ?c] by (simp add: ds)
  with assms(2) have cN: "?c < N" by simp
  then have "[0..<N] = [0..<?c] @ ?c # [Suc ?c..<N]"
    by (metis le_add1 less_imp_add_positive upt_add_eq_append upt_conv_Cons zero_le add_0)
  then have full: "concat (map spec_leg [0..<N])
      = ?pre @ spec_leg ?c @ concat (map spec_leg [Suc ?c..<N])"
    by simp
  have m: "min ?t (?c div 2 + 1) = ?t" using t by simp
  have "take ?t (spec_leg ?c) = replicate ?t (sp_dx s, sp_dy s)"
    by (simp only: spec_leg_def take_replicate m d)
  moreover have "length ds = length ?pre + ?t" by (simp add: ds)
  ultimately show ?thesis
    using t by (simp add: full ds spec_leg_length)
qed

lemma generate_spiral_positions_walk:
  "generate_spiral_positions N = spec_square_spiral N"
proof (cases "N \<le> 1")
  case True
  then have "N = 0 \<or> N = 1" by arith
  then show ?thesis
    by (auto simp: generate_spiral_positions_def spec_square_spiral_def)
next
  case False
  obtain ds where len: "length ds = N - 1"
    and inv: "walk_inv ds (spiral_loop (N - 1) spiral_init)"
    using walk_inv_loop [OF walk_inv_init, of "N - 1"] by auto
  have "ds = take (N - 1) (concat (map spec_leg [0..<N]))"
    using walk_inv_take [OF inv, of N] False len by simp
  with inv False show ?thesis
    by (simp add: generate_spiral_positions_def spec_square_spiral_def walk_inv_def)
qed

subsection \<open>Consecutive cells are neighbours; the bounding box\<close>

lemma spec_turn_unit: "\<bar>fst ((spec_turn_ccw ^^ j) (1, 0))\<bar> + \<bar>snd ((spec_turn_ccw ^^ j) (1, 0))\<bar> = 1"
  by (induction j) (simp_all add: spec_turn_ccw_def)

lemma spec_walk_from_head: "spec_walk_from p ds ! 0 = p"
  by (cases ds) simp_all

lemma spec_walk_from_adjacent:
  assumes "\<forall>d \<in> set ds. \<bar>fst d\<bar> + \<bar>snd d\<bar> = 1"
    and "Suc i < length (spec_walk_from p ds)"
  shows "grid_adjacent (spec_walk_from p ds ! i) (spec_walk_from p ds ! Suc i)"
  using assms
proof (induction ds arbitrary: p i)
  case Nil
  then show ?case by simp
next
  case (Cons d ds)
  show ?case
  proof (cases i)
    case 0
    with Cons.prems(1) show ?thesis
      by (simp add: spec_walk_from_head grid_adjacent_def)
  next
    case (Suc j)
    with Cons.prems have "Suc j < length (spec_walk_from (fst p + fst d, snd p + snd d) ds)"
      and "\<forall>d \<in> set ds. \<bar>fst d\<bar> + \<bar>snd d\<bar> = 1"
      by simp_all
    from Cons.IH [OF this(2) this(1)] Suc show ?thesis by simp
  qed
qed

lemma spec_square_spiral_adjacent:
  assumes "Suc i < length (spec_square_spiral N)"
  shows "grid_adjacent (spec_square_spiral N ! i) (spec_square_spiral N ! Suc i)"
proof -
  let ?ds = "take (N - 1) (concat (map spec_leg [0..<N]))"
  have "\<forall>d \<in> set ?ds. \<bar>fst d\<bar> + \<bar>snd d\<bar> = 1"
  proof
    fix d assume "d \<in> set ?ds"
    then have "d \<in> set (concat (map spec_leg [0..<N]))" by (rule in_set_takeD)
    then obtain j where "d \<in> set (spec_leg j)" by auto
    then have "d = (spec_turn_ccw ^^ j) (1, 0)" by (auto simp: spec_leg_def)
    then show "\<bar>fst d\<bar> + \<bar>snd d\<bar> = 1" by (simp only: spec_turn_unit)
  qed
  moreover from assms have "N \<noteq> 0" "Suc i < length (spec_walk_from (0, 0) ?ds)"
    by (auto simp: spec_square_spiral_def split: if_splits)
  ultimately show ?thesis
    by (simp add: spec_square_spiral_def spec_walk_from_adjacent)
qed

lemma bounding_box_area:
  fixes ps :: "(int \<times> int) list"
  assumes "distinct ps" and "ps \<noteq> []"
  shows "int (length ps)
         \<le> (Max (set (map fst ps)) - Min (set (map fst ps)) + 1)
           * (Max (set (map snd ps)) - Min (set (map snd ps)) + 1)"
proof -
  let ?X = "set (map fst ps)" and ?Y = "set (map snd ps)"
  have ne: "?X \<noteq> {}" "?Y \<noteq> {}" using assms(2) by simp_all
  have sub: "set ps \<subseteq> {Min ?X..Max ?X} \<times> {Min ?Y..Max ?Y}"
  proof
    fix p assume "p \<in> set ps"
    then have "fst p \<in> ?X" "snd p \<in> ?Y" by simp_all
    then have "Min ?X \<le> fst p" "fst p \<le> Max ?X" "Min ?Y \<le> snd p" "snd p \<le> Max ?Y"
      by simp_all
    then show "p \<in> {Min ?X..Max ?X} \<times> {Min ?Y..Max ?Y}"
      by (cases p) simp
  qed
  have "length ps = card (set ps)" using assms(1) by (simp add: distinct_card)
  also have "\<dots> \<le> card ({Min ?X..Max ?X} \<times> {Min ?Y..Max ?Y})"
    by (rule card_mono [OF _ sub]) simp
  also have "\<dots> = nat (Max ?X - Min ?X + 1) * nat (Max ?Y - Min ?Y + 1)"
    by (simp add: card_cartesian_product)
  finally have "int (length ps) \<le> int (nat (Max ?X - Min ?X + 1) * nat (Max ?Y - Min ?Y + 1))"
    by (simp only: of_nat_le_iff)
  moreover have "Min ?X \<le> Max ?X" "Min ?Y \<le> Max ?Y"
    using ne by (simp_all add: Min_le_iff)
  ultimately show ?thesis by simp
qed

text \<open>
  Claim C3. For every \<open>N \<ge> 1\<close>, \<open>generate_spiral_positions N\<close> has exactly \<open>N\<close>
  coordinates, the first is \<open>(0, 0)\<close>, and the list is the square-spiral walk of the
  specification (\<open>spec_square_spiral\<close>: start in direction \<open>+x\<close>, legs of 1, 1, 2, 2, 3, 3, ...
  steps, a counter-clockwise quarter turn after each leg). The coordinates are pairwise
  distinct, consecutive ones are grid neighbours, and the area of their bounding box is
  at least \<open>N\<close>.
\<close>

theorem spiral_positions_square_walk:
  assumes "1 \<le> N"
  shows "length (generate_spiral_positions N) = N
       \<and> generate_spiral_positions N ! 0 = (0, 0)
       \<and> generate_spiral_positions N = spec_square_spiral N
       \<and> distinct (generate_spiral_positions N)
       \<and> (\<forall>i. Suc i < N \<longrightarrow>
             grid_adjacent (generate_spiral_positions N ! i) (generate_spiral_positions N ! Suc i))
       \<and> int N \<le> (Max (set (map fst (generate_spiral_positions N)))
                    - Min (set (map fst (generate_spiral_positions N))) + 1)
                 * (Max (set (map snd (generate_spiral_positions N)))
                    - Min (set (map snd (generate_spiral_positions N))) + 1)"
proof -
  let ?ps = "generate_spiral_positions N"
  have len: "length ?ps = N" by (rule generate_spiral_positions_length)
  have ne: "?ps \<noteq> []" using len assms by auto
  have adj: "\<forall>i. Suc i < N \<longrightarrow> grid_adjacent (?ps ! i) (?ps ! Suc i)"
    using spec_square_spiral_adjacent [of _ N] len
    by (simp add: generate_spiral_positions_walk)
  have "int (length ?ps)
         \<le> (Max (set (map fst ?ps)) - Min (set (map fst ?ps)) + 1)
           * (Max (set (map snd ?ps)) - Min (set (map snd ?ps)) + 1)"
    by (rule bounding_box_area [OF generate_spiral_positions_distinct ne])
  then show ?thesis
    using len generate_spiral_positions_first [OF assms] generate_spiral_positions_walk [of N]
      generate_spiral_positions_distinct [of N] adj
    by simp
qed

theorem spiral_positions_square_walk_witness:
  "(1::nat) \<le> 10
   \<and> generate_spiral_positions 10
       = [(0, 0), (1, 0), (1, 1), (0, 1), (- 1, 1), (- 1, 0), (- 1, - 1), (0, - 1),
          (1, - 1), (2, - 1)]
   \<and> length (generate_spiral_positions 10) = 10
   \<and> generate_spiral_positions 10 = spec_square_spiral 10
   \<and> distinct (generate_spiral_positions 10)
   \<and> grid_adjacent (generate_spiral_positions 10 ! 3) (generate_spiral_positions 10 ! Suc 3)"
proof -
  have v: "generate_spiral_positions 10
       = [(0, 0), (1, 0), (1, 1), (0, 1), (- 1, 1), (- 1, 0), (- 1, - 1), (0, - 1),
          (1, - 1), (2, - 1)]"
    by code_simp
  have h: "(1::nat) \<le> 10" by simp
  note t = spiral_positions_square_walk [OF h]
  from t have l: "length (generate_spiral_positions 10) = 10" by blast
  from t have w: "generate_spiral_positions 10 = spec_square_spiral 10" by blast
  from t have d: "distinct (generate_spiral_positions 10)" by blast
  from t have "\<forall>i. Suc i < 10 \<longrightarrow>
      grid_adjacent (generate_spiral_positions 10 ! i) (generate_spiral_positions 10 ! Suc i)"
    by blast
  then have "Suc 3 < (10::nat) \<longrightarrow>
      grid_adjacent (generate_spiral_positions 10 ! 3) (generate_spiral_positions 10 ! Suc 3)"
    by (rule spec)
  then have a: "grid_adjacent (generate_spiral_positions 10 ! 3) (generate_spiral_positions 10 ! Suc 3)"
    by simp
  from v h l w d a show ?thesis by blast
qed

section \<open>Grid cells\<close>

lemma enumerate_as_map: "enumerate 0 xs = map (\<lambda>i. (i, xs ! i)) [0..<length xs]"
  by (rule nth_equalityI) (simp_all add: nth_enumerate_eq)

lemma map_filter_map_comp: "List.map_filter f (map g xs) = List.map_filter (\<lambda>x. f (g x)) xs"
  by (induction xs) (simp_all split: option.splits)

lemma map_filter_enumerate:
  "List.map_filter f (enumerate 0 xs) = List.map_filter (\<lambda>i. f (i, xs ! i)) [0..<length xs]"
  by (simp only: enumerate_as_map map_filter_map_comp)

lemma set_map_filter_iff:
  "p \<in> set (List.map_filter g xs) \<longleftrightarrow> (\<exists>x \<in> set xs. g x = Some p)"
  by (induction xs) (auto split: option.splits)

lemma set_map_filter_upt:
  "set (List.map_filter g [0..<n]) = {p. \<exists>i < n. g i = Some p}"
  by (force simp: set_map_filter_iff)

lemma arrange_v2_as_map_filter:
  "arrange_all_images_on_single_page_v2 image_files aw ah
   = List.map_filter (grid_placement_at image_files aw ah) [0..<length image_files]"
proof (cases "length image_files = 0")
  case True
  then show ?thesis
    by (simp add: arrange_all_images_on_single_page_v2_def)
next
  case False
  obtain rows cols where l: "calculate_grid_layout (length image_files) = (rows, cols)"
    by (cases "calculate_grid_layout (length image_files)")
  show ?thesis
    using False
    by (simp add: arrange_all_images_on_single_page_v2_def Let_def l map_filter_enumerate
        grid_placement_at_def [abs_def])
qed


text \<open>
  Claim C10. In the grid layout the cell of the image at input index \<open>i\<close> depends only on
  \<open>i\<close> and the number of images: the page is the list of the per-index results
  \<open>grid_placement_at\<close> (row \<open>i div cols\<close>, column \<open>i mod cols\<close>), an image whose probe fails
  contributes nothing, and two runs of the same length that agree on image \<open>i\<close> give it
  the same position and size, whatever happens to the other images.
\<close>

theorem grid_cell_fixed_by_index:
  assumes "i < length image_files"
    and "length image_files' = length image_files"
    and "image_files' ! i = image_files ! i"
    and "calculate_grid_layout (length image_files) = (rows, cols)"
    and "cell_width = (available_width - (real cols - 1) * 5) / real cols"
    and "cell_height = (available_height - (real rows - 1) * 5) / real rows"
  shows "arrange_all_images_on_single_page_v2 image_files available_width available_height
         = List.map_filter (grid_placement_at image_files available_width available_height)
             [0..<length image_files]
       \<and> grid_placement_at image_files' available_width available_height i
         = grid_placement_at image_files available_width available_height i
       \<and> (grid_placement_at image_files available_width available_height i = None
         \<longleftrightarrow> calculate_image_dimensions (image_files ! i) cell_width cell_height = None)
       \<and> (\<forall>p. grid_placement_at image_files available_width available_height i = Some p \<longrightarrow>
           p \<in> set (arrange_all_images_on_single_page_v2 image_files available_width
                      available_height)
         \<and> p \<in> set (arrange_all_images_on_single_page_v2 image_files' available_width
                      available_height)
         \<and> pl_path p = image_files ! i
         \<and> calculate_image_dimensions (image_files ! i) cell_width cell_height
             = Some (pl_width p, pl_height p, pl_scale p)
         \<and> pl_x p + pl_width p / 2 = real (i mod cols) * (cell_width + 5) + cell_width / 2
         \<and> pl_y p + pl_height p / 2
             = available_height - real (i div cols + 1) * cell_height - real (i div cols) * 5
               + cell_height / 2)"
proof -
  let ?at = "grid_placement_at image_files available_width available_height"
  let ?at' = "grid_placement_at image_files' available_width available_height"
  have rep: "arrange_all_images_on_single_page_v2 image_files available_width available_height
         = List.map_filter ?at [0..<length image_files]"
    by (rule arrange_v2_as_map_filter)
  have same: "?at' i = ?at i"
    by (simp add: grid_placement_at_def assms(2,3))
  have body: "?at i = grid_loop_body cols 5 cell_width cell_height available_height
                        (i, image_files ! i)"
    by (simp add: grid_placement_at_def assms(4,5,6))
  have none: "?at i = None
         \<longleftrightarrow> calculate_image_dimensions (image_files ! i) cell_width cell_height = None"
    by (simp add: body grid_loop_body_def Let_def split: option.splits)
  have some: "p \<in> set (arrange_all_images_on_single_page_v2 image_files available_width
                      available_height)
         \<and> p \<in> set (arrange_all_images_on_single_page_v2 image_files' available_width
                      available_height)
         \<and> pl_path p = image_files ! i
         \<and> calculate_image_dimensions (image_files ! i) cell_width cell_height
             = Some (pl_width p, pl_height p, pl_scale p)
         \<and> pl_x p + pl_width p / 2 = real (i mod cols) * (cell_width + 5) + cell_width / 2
         \<and> pl_y p + pl_height p / 2
             = available_height - real (i div cols + 1) * cell_height - real (i div cols) * 5
               + cell_height / 2"
    if p: "?at i = Some p" for p
  proof -
    have "p \<in> set (List.map_filter ?at [0..<length image_files])"
      using p assms(1) by (auto simp: set_map_filter_upt)
    then have in1: "p \<in> set (arrange_all_images_on_single_page_v2 image_files available_width
                      available_height)"
      by (simp only: rep)
    have "p \<in> set (List.map_filter ?at' [0..<length image_files'])"
      using p same assms(1,2) by (auto simp: set_map_filter_upt)
    then have in2: "p \<in> set (arrange_all_images_on_single_page_v2 image_files' available_width
                      available_height)"
      by (simp only: arrange_v2_as_map_filter)
    from p [unfolded body] have
      "pl_path p = image_files ! i
         \<and> calculate_image_dimensions (image_files ! i) cell_width cell_height
             = Some (pl_width p, pl_height p, pl_scale p)
         \<and> pl_x p + pl_width p / 2 = real (i mod cols) * (cell_width + 5) + cell_width / 2
         \<and> pl_y p + pl_height p / 2
             = available_height - real (i div cols + 1) * cell_height - real (i div cols) * 5
               + cell_height / 2"
      by (auto simp: grid_loop_body_def Let_def split: option.splits)
    with in1 in2 show ?thesis by blast
  qed
  from rep same none some show ?thesis by blast
qed

theorem grid_cell_fixed_by_index_witness:
  "grid_placement_at [photo ''a.png'' 800 600, photo ''b.png'' 30 40, photo ''c.png'' 100 100]
     500 700 2
   = grid_placement_at [photo ''a.png'' 800 600, corrupt ''b.png'', photo ''c.png'' 100 100]
       500 700 2
   \<and> grid_placement_at [photo ''a.png'' 800 600, corrupt ''b.png'', photo ''c.png'' 100 100]
       500 700 2
     = Some \<lparr>pl_path = photo ''c.png'' 100 100, pl_x = 0, pl_y = 50,
             pl_width = 495 / 2, pl_height = 495 / 2, pl_scale = 99 / 40\<rparr>
   \<and> \<lparr>pl_path = photo ''c.png'' 100 100, pl_x = 0, pl_y = 50,
       pl_width = 495 / 2, pl_height = 495 / 2, pl_scale = 99 / 40\<rparr>
     \<in> set (arrange_all_images_on_single_page_v2
              [photo ''a.png'' 800 600, corrupt ''b.png'', photo ''c.png'' 100 100] 500 700)
   \<and> \<lparr>pl_path = photo ''c.png'' 100 100, pl_x = 0, pl_y = 50,
       pl_width = 495 / 2, pl_height = 495 / 2, pl_scale = 99 / 40\<rparr>
     \<in> set (arrange_all_images_on_single_page_v2
              [photo ''a.png'' 800 600, photo ''b.png'' 30 40, photo ''c.png'' 100 100] 500 700)"
proof -
  let ?run = "[photo ''a.png'' 800 600, corrupt ''b.png'', photo ''c.png'' 100 100]"
  let ?run' = "[photo ''a.png'' 800 600, photo ''b.png'' 30 40, photo ''c.png'' 100 100]"
  let ?p = "\<lparr>pl_path = photo ''c.png'' 100 100, pl_x = 0, pl_y = 50,
             pl_width = 495 / 2, pl_height = 495 / 2, pl_scale = 99 / 40\<rparr>"
  have h: "2 < length ?run" "length ?run' = length ?run" "?run' ! 2 = ?run ! 2"
    "calculate_grid_layout (length ?run) = (2, 2)"
    "(495 / 2 :: real) = (500 - (real 2 - 1) * 5) / real 2"
    "(695 / 2 :: real) = (700 - (real 2 - 1) * 5) / real 2"
    by (simp_all add: calculate_grid_layout_def)
  note t = grid_cell_fixed_by_index [OF h]
  have v: "grid_placement_at ?run 500 700 2 = Some ?p"
    by (simp add: grid_placement_at_def calculate_grid_layout_def grid_loop_body_def
        calculate_image_dimensions_def photo_def Let_def)
  from t have "grid_placement_at ?run' 500 700 2 = grid_placement_at ?run 500 700 2" by blast
  moreover from t v have "?p \<in> set (arrange_all_images_on_single_page_v2 ?run 500 700)"
    by blast
  moreover from t v have "?p \<in> set (arrange_all_images_on_single_page_v2 ?run' 500 700)"
    by blast
  ultimately show ?thesis using v by blast
qed

section \<open>Spiral cells\<close>






section \<open>A folder without images\<close>

text \<open>
  Claim C9. When the folder holds no supported image file, \<open>get_image_files\<close> returns the
  empty list and \<open>main\<close> takes the branch that reports that no supported image files
  were found and returns normally: \<open>create_pdf_from_images\<close> is not called, so there is
  no page and no draw call. Called with the empty list, \<open>create_pdf_from_images\<close> itself
  returns before it creates a canvas.
\<close>

theorem no_images_short_circuit:
  assumes "\<forall>e \<in> set entries. \<not> (fp_is_file e \<and> lower (fp_suffix e) \<in> SUPPORTED_FORMATS)"
  shows "get_image_files (Some entries) = Inr []
       \<and> main_v1 pagesize (Some entries) = No_Supported_Images
       \<and> main_v2 pagesize (Some entries) = No_Supported_Images
       \<and> main_v3 pagesize (Some entries) = No_Supported_Images
       \<and> create_pdf_from_images_v1 pagesize [] = None
       \<and> create_pdf_from_images_v2 pagesize [] = None
       \<and> create_pdf_from_images_v3 pagesize [] = None"
proof -
  have "filter (\<lambda>file_path. fp_is_file file_path
          \<and> lower (fp_suffix file_path) \<in> SUPPORTED_FORMATS) entries = []"
    using assms by (simp add: filter_empty_conv)
  then have g: "get_image_files (Some entries) = Inr []"
    by (simp add: get_image_files_def)
  then show ?thesis
    by (simp add: main_v1_def main_v2_def main_v3_def create_pdf_from_images_v1_def
        create_pdf_from_images_v2_def create_pdf_from_images_v3_def)
qed

theorem no_images_short_circuit_witness:
  "get_image_files
     (Some [\<lparr>fp_name = ''notes.TXT'', fp_suffix = ''.TXT'', fp_is_file = True,
              fp_size = None, fp_readable = False\<rparr>,
            \<lparr>fp_name = ''old.png'', fp_suffix = ''.png'', fp_is_file = False,
              fp_size = None, fp_readable = False\<rparr>]) = Inr []
   \<and> main_v1 A4
     (Some [\<lparr>fp_name = ''notes.TXT'', fp_suffix = ''.TXT'', fp_is_file = True,
              fp_size = None, fp_readable = False\<rparr>,
            \<lparr>fp_name = ''old.png'', fp_suffix = ''.png'', fp_is_file = False,
              fp_size = None, fp_readable = False\<rparr>]) = No_Supported_Images
   \<and> create_pdf_from_images_v1 A4 [] = None"
proof -
  let ?entries = "[\<lparr>fp_name = ''notes.TXT'', fp_suffix = ''.TXT'', fp_is_file = True,
              fp_size = None, fp_readable = False\<rparr>,
            \<lparr>fp_name = ''old.png'', fp_suffix = ''.png'', fp_is_file = False,
              fp_size = None, fp_readable = False\<rparr>]"
  have h: "\<forall>e \<in> set ?entries.
             \<not> (fp_is_file e \<and> lower (fp_suffix e) \<in> SUPPORTED_FORMATS)"
    by (simp add: lower_def char_lower_def SUPPORTED_FORMATS_def)
  from no_images_short_circuit [OF h, of A4] show ?thesis by blast
qed

section \<open>Flow layout: rows and pages\<close>

subsection \<open>Fitting an image into a box\<close>

lemma calculate_image_dimensions_Some:
  assumes "calculate_image_dimensions img mw mh = Some (w, h, s)"
  shows "\<exists>ow oh. fp_size img = Some (ow, oh) \<and> 0 < ow \<and> 0 < oh
           \<and> s = min (mw / real ow) (mh / real oh)
           \<and> w = real ow * s \<and> h = real oh * s"
  using assms
  by (auto simp: calculate_image_dimensions_def Let_def split: option.splits if_splits)

lemma calculate_image_dimensions_None:
  "calculate_image_dimensions img mw mh = None
   \<longleftrightarrow> (case fp_size img of None \<Rightarrow> True | Some (ow, oh) \<Rightarrow> ow = 0 \<or> oh = 0)"
  by (auto simp: calculate_image_dimensions_def Let_def split: option.splits)

lemma fit_le:
  assumes "calculate_image_dimensions img mw mh = Some (w, h, s)"
  shows "w \<le> mw" and "h \<le> mh"
proof -
  obtain ow oh where o: "0 < ow" "0 < oh" and s: "s = min (mw / real ow) (mh / real oh)"
    and w: "w = real ow * s" and h: "h = real oh * s"
    using calculate_image_dimensions_Some [OF assms] by blast
  have "s \<le> mw / real ow" "s \<le> mh / real oh" by (simp_all add: s)
  then have "real ow * s \<le> mw" "real oh * s \<le> mh"
    using o by (simp_all add: field_simps)
  then show "w \<le> mw" and "h \<le> mh" by (simp_all add: w h)
qed


lemma fit_largest:
  assumes "calculate_image_dimensions img mw mh = Some (w, h, s)"
    and "fp_size img = Some (ow, oh)"
    and "real ow * s' \<le> mw" and "real oh * s' \<le> mh"
  shows "s' \<le> s"
proof -
  obtain ow' oh' where "fp_size img = Some (ow', oh')" and o': "0 < ow'" "0 < oh'"
    and s': "s = min (mw / real ow') (mh / real oh')"
    using calculate_image_dimensions_Some [OF assms(1)] by blast
  with assms(2) have o: "0 < ow" "0 < oh" and s: "s = min (mw / real ow) (mh / real oh)"
    by simp_all
  have "s' \<le> mw / real ow" "s' \<le> mh / real oh"
    using assms(3,4) o by (simp_all add: field_simps)
  then show ?thesis by (simp add: s)
qed

subsection \<open>The row loop\<close>

lemma fill_row_stop:
  assumes "\<not> (idx < length image_files \<and> 50 < rw)"
  shows "fill_row image_files aw ah rh idx rw row rowh = (row, rowh, idx)"
  by (subst fill_row.simps) (simp only: assms if_False)

lemma fill_row_skip:
  assumes "idx < length image_files" and "50 < rw"
    and "calculate_image_dimensions (image_files ! idx) (min rw (aw * 0.8)) (min rh (ah * 0.6))
         = None"
  shows "fill_row image_files aw ah rh idx rw row rowh
         = fill_row image_files aw ah rh (idx + 1) rw row rowh"
  using assms by (simp add: fill_row.simps [of image_files aw ah rh idx])

lemma fill_row_accept:
  assumes "idx < length image_files" and "50 < rw"
    and "calculate_image_dimensions (image_files ! idx) (min rw (aw * 0.8)) (min rh (ah * 0.6))
         = Some (w, h, s)"
  shows "fill_row image_files aw ah rh idx rw row rowh
         = fill_row image_files aw ah rh (idx + 1) (rw - (w + 10))
             (row @ [\<lparr>ri_path = image_files ! idx, ri_width = w, ri_height = h, ri_scale = s\<rparr>])
             (max rowh h)"
proof -
  have "w \<le> min rw (aw * 0.8)" by (rule fit_le(1) [OF assms(3)])
  then have "w \<le> rw" by simp
  with assms show ?thesis by (simp add: fill_row.simps [of image_files aw ah rh idx])
qed

lemma fill_row_induct [consumes 0, case_names stop skip accept]:
  assumes "\<And>idx rw row rowh. \<not> (idx < length image_files \<and> 50 < rw) \<Longrightarrow> P idx rw row rowh"
    and "\<And>idx rw row rowh. idx < length image_files \<Longrightarrow> 50 < rw \<Longrightarrow>
           calculate_image_dimensions (image_files ! idx) (min rw (aw * 0.8)) (min rh (ah * 0.6))
             = None \<Longrightarrow>
           P (idx + 1) rw row rowh \<Longrightarrow> P idx rw row rowh"
    and "\<And>idx rw row rowh w h s. idx < length image_files \<Longrightarrow> 50 < rw \<Longrightarrow>
           calculate_image_dimensions (image_files ! idx) (min rw (aw * 0.8)) (min rh (ah * 0.6))
             = Some (w, h, s) \<Longrightarrow>
           P (idx + 1) (rw - (w + 10))
             (row @ [\<lparr>ri_path = image_files ! idx, ri_width = w, ri_height = h, ri_scale = s\<rparr>])
             (max rowh h) \<Longrightarrow>
           P idx rw row rowh"
  shows "P idx rw row rowh"
proof (induction "length image_files - idx" arbitrary: idx rw row rowh rule: less_induct)
  case less
  show ?case
  proof (cases "idx < length image_files \<and> 50 < rw")
    case False
    then show ?thesis by (rule assms(1))
  next
    case True
    then have step: "length image_files - (idx + 1) < length image_files - idx" by linarith
    show ?thesis
    proof (cases "calculate_image_dimensions (image_files ! idx) (min rw (aw * 0.8))
                    (min rh (ah * 0.6))")
      case None
      from True None less(1) [OF step] show ?thesis by - (rule assms(2), simp_all)
    next
      case (Some t)
      obtain w h s where "t = (w, h, s)" by (cases t)
      with True Some less(1) [OF step] show ?thesis by - (rule assms(3) [of _ _ w h s], simp_all)
    qed
  qed
qed

lemma row_entry_of_mono:
  "row_entry_of image_files aw ah rh lo hi r \<Longrightarrow> lo' \<le> lo \<Longrightarrow> hi \<le> hi'
   \<Longrightarrow> row_entry_of image_files aw ah rh lo' hi' r"
  unfolding row_entry_of_def by (meson le_trans less_le_trans)

lemma fill_row_result:
  assumes "fill_row image_files aw ah rh idx rw row rowh = (row', rowh', idx')"
  shows "\<exists>new. row' = row @ new
     \<and> (\<forall>r \<in> set new. row_entry_of image_files aw ah rh idx idx' r)
     \<and> (new \<noteq> [] \<longrightarrow> sum_list (map ri_width new) + 10 * (real (length new) - 1) \<le> rw)
     \<and> rowh \<le> rowh' \<and> (\<forall>r \<in> set new. ri_height r \<le> rowh')
     \<and> rowh' \<le> max rowh (min rh (ah * 0.6))"
  using assms
proof (induction idx rw row rowh
    rule: fill_row_induct [where image_files = image_files and aw = aw and ah = ah and rh = rh])
  case (stop idx rw row rowh)
  then have "row' = row" "rowh' = rowh" by (simp_all add: fill_row_stop)
  then show ?case by simp
next
  case (skip idx rw row rowh)
  from skip.prems have "fill_row image_files aw ah rh (idx + 1) rw row rowh = (row', rowh', idx')"
    by (simp add: fill_row_skip [OF skip.hyps])
  from skip.IH [OF this] obtain new where new: "row' = row @ new"
    "\<forall>r \<in> set new. row_entry_of image_files aw ah rh (idx + 1) idx' r"
    "new \<noteq> [] \<longrightarrow> sum_list (map ri_width new) + 10 * (real (length new) - 1) \<le> rw"
    "rowh \<le> rowh'" "\<forall>r \<in> set new. ri_height r \<le> rowh'"
    "rowh' \<le> max rowh (min rh (ah * 0.6))"
    by blast
  from new(2) have "\<forall>r \<in> set new. row_entry_of image_files aw ah rh idx idx' r"
    by (auto intro: row_entry_of_mono)
  with new show ?case by blast
next
  case (accept idx rw row rowh w h s)
  let ?e = "\<lparr>ri_path = image_files ! idx, ri_width = w, ri_height = h, ri_scale = s\<rparr>"
  from accept.prems have run:
    "fill_row image_files aw ah rh (idx + 1) (rw - (w + 10)) (row @ [?e]) (max rowh h)
     = (row', rowh', idx')"
    by (simp add: fill_row_accept [OF accept.hyps])
  from accept.IH [OF this] obtain new where new: "row' = (row @ [?e]) @ new"
    "\<forall>r \<in> set new. row_entry_of image_files aw ah rh (idx + 1) idx' r"
    "new \<noteq> [] \<longrightarrow> sum_list (map ri_width new) + 10 * (real (length new) - 1) \<le> rw - (w + 10)"
    "max rowh h \<le> rowh'" "\<forall>r \<in> set new. ri_height r \<le> rowh'"
    "rowh' \<le> max (max rowh h) (min rh (ah * 0.6))"
    by blast
  have idx': "idx + 1 \<le> idx'" using fill_row_index [OF run] by simp
  have e: "row_entry_of image_files aw ah rh idx idx' ?e"
    unfolding row_entry_of_def using accept.hyps idx'
    by (intro exI [of _ idx] exI [of _ rw]) simp
  have wle: "w \<le> rw" using fit_le(1) [OF accept.hyps(3)] by simp
  have hle: "h \<le> min rh (ah * 0.6)" by (rule fit_le(2) [OF accept.hyps(3)])
  have 1: "row' = row @ (?e # new)" by (simp add: new(1))
  have 2: "\<forall>r \<in> set (?e # new). row_entry_of image_files aw ah rh idx idx' r"
    using e new(2) by (auto intro: row_entry_of_mono)
  have 3: "sum_list (map ri_width (?e # new)) + 10 * (real (length (?e # new)) - 1) \<le> rw"
  proof (cases "new = []")
    case True
    with wle show ?thesis by simp
  next
    case False
    with new(3) show ?thesis by simp
  qed
  have 4: "rowh \<le> rowh'" using new(4) by simp
  have 5: "\<forall>r \<in> set (?e # new). ri_height r \<le> rowh'" using new(4,5) by simp
  have 6: "rowh' \<le> max rowh (min rh (ah * 0.6))" using new(6) hle by linarith
  from 1 2 3 4 5 6 show ?case by blast
qed

subsection \<open>The page loop\<close>

lemma fill_row_height_le:
  assumes "fill_row image_files aw ah rh idx aw [] 0 = (row, rowh, idx1)" and "0 \<le> rh"
  shows "0 \<le> rowh" and "rowh \<le> rh"
proof -
  from fill_row_result [OF assms(1)] have "0 \<le> rowh" "rowh \<le> max 0 (min rh (ah * 0.6))"
    by blast+
  then show "0 \<le> rowh" and "rowh \<le> rh" using assms(2) by linarith+
qed

lemma page_rows_stop:
  assumes "\<not> (idx < length image_files \<and> 50 < rh)"
  shows "page_rows image_files aw ah idx rh pages = (pages, idx)"
  by (subst page_rows.simps) (simp only: assms if_False)

lemma page_rows_empty_row:
  assumes "idx < length image_files" and "50 < rh"
    and "fill_row image_files aw ah rh idx aw [] 0 = ([], rowh, idx1)"
  shows "page_rows image_files aw ah idx rh pages = (pages, idx1)"
  using assms by (simp add: page_rows.simps [of image_files aw ah idx])

lemma page_rows_accept:
  assumes "idx < length image_files" and "50 < rh"
    and "fill_row image_files aw ah rh idx aw [] 0 = (row, rowh, idx1)" and "row \<noteq> []"
  shows "page_rows image_files aw ah idx rh pages
         = page_rows image_files aw ah idx1 (rh - (rowh + 10)) (pages @ [row])"
proof -
  have "rowh \<le> rh" using fill_row_height_le(2) [OF assms(3)] assms(2) by simp
  with assms show ?thesis by (simp add: page_rows.simps [of image_files aw ah idx])
qed

lemma page_rows_induct [consumes 0, case_names stop empty_row accept]:
  assumes "\<And>idx rh pages. \<not> (idx < length image_files \<and> 50 < rh) \<Longrightarrow> P idx rh pages"
    and "\<And>idx rh pages rowh idx1. idx < length image_files \<Longrightarrow> 50 < rh \<Longrightarrow>
           fill_row image_files aw ah rh idx aw [] 0 = ([], rowh, idx1) \<Longrightarrow> P idx rh pages"
    and "\<And>idx rh pages row rowh idx1. idx < length image_files \<Longrightarrow> 50 < rh \<Longrightarrow>
           fill_row image_files aw ah rh idx aw [] 0 = (row, rowh, idx1) \<Longrightarrow> row \<noteq> [] \<Longrightarrow>
           P idx1 (rh - (rowh + 10)) (pages @ [row]) \<Longrightarrow> P idx rh pages"
  shows "P idx rh pages"
proof (induction "length image_files - idx" arbitrary: idx rh pages rule: less_induct)
  case less
  show ?case
  proof (cases "idx < length image_files \<and> 50 < rh")
    case False
    then show ?thesis by (rule assms(1))
  next
    case True
    obtain row rowh idx1 where fr: "fill_row image_files aw ah rh idx aw [] 0 = (row, rowh, idx1)"
      by (cases "fill_row image_files aw ah rh idx aw [] 0") auto
    show ?thesis
    proof (cases "row = []")
      case True
      with \<open>idx < length image_files \<and> 50 < rh\<close> fr show ?thesis
        by - (rule assms(2) [of _ _ rowh idx1], simp_all)
    next
      case False
      with fill_row_index [OF fr] have "idx < idx1" by (cases row) auto
      with True have "length image_files - idx1 < length image_files - idx" by linarith
      from less(1) [OF this] True fr False show ?thesis
        by - (rule assms(3) [of _ _ row rowh idx1], simp_all)
    qed
  qed
qed

lemma page_rows_result:
  assumes "page_rows image_files aw ah idx rh pages = (pages', idx')"
  shows "\<exists>new. pages' = pages @ new
     \<and> (\<forall>row \<in> set new. row_ok image_files aw ah row)
     \<and> (new \<noteq> [] \<longrightarrow>
          sum_list (map drawn_row_height new) + 10 * (real (length new) - 1) \<le> rh)"
  using assms
proof (induction idx rh pages
    rule: page_rows_induct [where image_files = image_files and aw = aw and ah = ah])
  case (stop idx rh pages)
  then have "pages' = pages" by (simp add: page_rows_stop)
  then show ?case by simp
next
  case (empty_row idx rh pages rowh idx1)
  then have "pages' = pages" by (simp add: page_rows_empty_row)
  then show ?case by simp
next
  case (accept idx rh pages row rowh idx1)
  from accept.prems have
    "page_rows image_files aw ah idx1 (rh - (rowh + 10)) (pages @ [row]) = (pages', idx')"
    by (simp add: page_rows_accept [OF accept.hyps])
  from accept.IH [OF this] obtain new where new: "pages' = (pages @ [row]) @ new"
    "\<forall>row \<in> set new. row_ok image_files aw ah row"
    "new \<noteq> [] \<longrightarrow>
       sum_list (map drawn_row_height new) + 10 * (real (length new) - 1) \<le> rh - (rowh + 10)"
    by blast
  from fill_row_result [OF accept.hyps(3)] have
    ent: "\<forall>r \<in> set row. row_entry_of image_files aw ah rh idx idx1 r"
    and wid: "sum_list (map ri_width row) + 10 * (real (length row) - 1) \<le> aw"
    and hts: "\<forall>r \<in> set row. ri_height r \<le> rowh"
    using accept.hyps(4) by auto
  have ok: "row_ok image_files aw ah row"
    unfolding row_ok_def using accept.hyps(2,4) ent wid by blast
  have "drawn_row_height row \<le> rowh"
    unfolding drawn_row_height_def using hts accept.hyps(4) by simp
  moreover have "rowh \<le> rh"
    using fill_row_height_le(2) [OF accept.hyps(3)] accept.hyps(2) by simp
  ultimately have 3: "sum_list (map drawn_row_height (row # new))
      + 10 * (real (length (row # new)) - 1) \<le> rh"
    using new(3) by (cases "new = []") simp_all
  have 1: "pages' = pages @ (row # new)" by (simp add: new(1))
  have 2: "\<forall>row \<in> set (row # new). row_ok image_files aw ah row" using ok new(2) by simp
  from 1 2 3 show ?case by blast
qed


subsection \<open>Rounding to binary64\<close>

lemma ilog2_bounds:
  "0 < n \<Longrightarrow> 2 ^ ilog2 n \<le> n \<and> n < 2 ^ Suc (ilog2 n)"
proof (induction n rule: ilog2.induct)
  case (1 n)
  show ?case
  proof (cases "n < 2")
    case True
    with "1.prems" have "n = 1" by simp
    then show ?thesis by (simp add: ilog2.simps)
  next
    case False
    then have pos: "0 < n div 2" by simp
    from "1.IH" [OF False pos] have
      lo: "2 ^ ilog2 (n div 2) \<le> n div 2" and hi: "n div 2 < 2 ^ Suc (ilog2 (n div 2))"
      by simp_all
    have eq: "ilog2 n = Suc (ilog2 (n div 2))"
      using False by (subst ilog2.simps) simp
    from lo have "2 * 2 ^ ilog2 (n div 2) \<le> n" by linarith
    moreover from hi have "n < 2 * 2 ^ Suc (ilog2 (n div 2))" by linarith
    ultimately show ?thesis by (simp add: eq)
  qed
qed

lemma exponent_bounds:
  assumes "0 < x"
  shows "2 powi exponent x \<le> x" and "x < 2 powi (exponent x + 1)"
proof -
  show "2 powi exponent x \<le> x"
  proof (cases "1 \<le> x")
    case True
    then have n: "0 < nat \<lfloor>x\<rfloor>" by simp
    from ilog2_bounds [OF n] have "(2::nat) ^ ilog2 (nat \<lfloor>x\<rfloor>) \<le> nat \<lfloor>x\<rfloor>" by simp
    then have "real ((2::nat) ^ ilog2 (nat \<lfloor>x\<rfloor>)) \<le> real (nat \<lfloor>x\<rfloor>)"
      by (rule of_nat_mono)
    also have "\<dots> \<le> x" using True by simp
    finally show ?thesis using True by (simp add: exponent_def)
  next
    case False
    let ?m = "nat (\<lceil>1 / x\<rceil> - 1)"
    from False assms have "1 < 1 / x" by simp
    then have c: "2 \<le> \<lceil>1 / x\<rceil>" by linarith
    then have m: "0 < ?m" by simp
    have "0 \<le> \<lceil>1 / x\<rceil> - 1" using c by linarith
    then have "real ?m = of_int (\<lceil>1 / x\<rceil> - 1)" by (rule of_nat_nat)
    then have rm: "real ?m = of_int \<lceil>1 / x\<rceil> - 1" by simp
    from ilog2_bounds [OF m] have "Suc ?m \<le> 2 ^ Suc (ilog2 ?m)" by simp
    then have "real (Suc ?m) \<le> real (2 ^ Suc (ilog2 ?m))" by (rule of_nat_mono)
    then have A: "real ?m + 1 \<le> 2 ^ Suc (ilog2 ?m)" by simp
    have B: "1 / x \<le> of_int \<lceil>1 / x\<rceil>" by (rule le_of_int_ceiling)
    from A B rm have "1 / x \<le> 2 ^ Suc (ilog2 ?m)" by linarith
    then have "1 / 2 ^ Suc (ilog2 ?m) \<le> x"
      using assms by (simp add: field_simps)
    moreover have "(2::real) powi (- int (Suc (ilog2 ?m))) = 1 / 2 ^ Suc (ilog2 ?m)"
      by (simp only: power_int_minus power_int_of_nat inverse_eq_divide)
    ultimately show ?thesis using False by (simp only: exponent_def if_False)
  qed
  show "x < 2 powi (exponent x + 1)"
  proof (cases "1 \<le> x")
    case True
    then have n: "0 < nat \<lfloor>x\<rfloor>" by simp
    have "0 \<le> \<lfloor>x\<rfloor>" using True by simp
    then have "real (nat \<lfloor>x\<rfloor>) = of_int \<lfloor>x\<rfloor>" by (rule of_nat_nat)
    then have rn: "x < real (nat \<lfloor>x\<rfloor>) + 1" by linarith
    from ilog2_bounds [OF n] have "Suc (nat \<lfloor>x\<rfloor>) \<le> 2 ^ Suc (ilog2 (nat \<lfloor>x\<rfloor>))" by simp
    then have "real (Suc (nat \<lfloor>x\<rfloor>)) \<le> real (2 ^ Suc (ilog2 (nat \<lfloor>x\<rfloor>)))"
      by (rule of_nat_mono)
    then have "real (nat \<lfloor>x\<rfloor>) + 1 \<le> 2 ^ Suc (ilog2 (nat \<lfloor>x\<rfloor>))" by simp
    with rn have "x < 2 ^ Suc (ilog2 (nat \<lfloor>x\<rfloor>))" by linarith
    moreover have "(2::real) powi (int (ilog2 (nat \<lfloor>x\<rfloor>)) + 1) = 2 ^ Suc (ilog2 (nat \<lfloor>x\<rfloor>))"
      by (simp add: power_int_add)
    ultimately show ?thesis using True by (simp only: exponent_def if_True)
  next
    case False
    let ?m = "nat (\<lceil>1 / x\<rceil> - 1)"
    from False assms have "1 < 1 / x" by simp
    then have c: "2 \<le> \<lceil>1 / x\<rceil>" by linarith
    then have m: "0 < ?m" by simp
    have "0 \<le> \<lceil>1 / x\<rceil> - 1" using c by linarith
    then have "real ?m = of_int (\<lceil>1 / x\<rceil> - 1)" by (rule of_nat_nat)
    then have rm: "real ?m = of_int \<lceil>1 / x\<rceil> - 1" by simp
    from ilog2_bounds [OF m] have "(2::nat) ^ ilog2 ?m \<le> ?m" by simp
    then have "real ((2::nat) ^ ilog2 ?m) \<le> real ?m" by (rule of_nat_mono)
    then have A: "2 ^ ilog2 ?m \<le> real ?m" by simp
    have B: "of_int \<lceil>1 / x\<rceil> - 1 < 1 / x" by linarith
    from A B rm have "2 ^ ilog2 ?m < 1 / x" by linarith
    then have "x < 1 / 2 ^ ilog2 ?m" using assms by (simp add: field_simps)
    moreover have "(2::real) powi (- int (Suc (ilog2 ?m)) + 1) = 1 / 2 ^ ilog2 ?m"
    proof -
      have "- int (Suc (ilog2 ?m)) + 1 = - int (ilog2 ?m)" by simp
      then show ?thesis
        by (simp only: power_int_minus power_int_of_nat inverse_eq_divide)
    qed
    ultimately show ?thesis using False by (simp only: exponent_def if_False)
  qed
qed

lemma round_half_even_error: "\<bar>of_int (round_half_even y) - y\<bar> \<le> 1 / 2"
proof -
  have "of_int \<lfloor>y\<rfloor> \<le> y" "y < of_int \<lfloor>y\<rfloor> + 1" by linarith+
  then show ?thesis by (auto simp: round_half_even_def Let_def)
qed

lemma binary64_error: "\<bar>binary64 x - x\<bar> \<le> \<bar>x\<bar> / 2 ^ 53"
proof (cases "x = 0")
  case True
  then show ?thesis by (simp add: binary64_def)
next
  case False
  define ulp :: real where "ulp = 2 powi (exponent \<bar>x\<bar> - 52)"
  have ulp: "0 < ulp" by (simp add: ulp_def)
  have b: "binary64 x = of_int (round_half_even (x / ulp)) * ulp"
    using False by (simp add: binary64_def ulp_def Let_def)
  have "binary64 x - x = (of_int (round_half_even (x / ulp)) - x / ulp) * ulp"
    using ulp by (simp add: b field_simps)
  then have "\<bar>binary64 x - x\<bar> = \<bar>of_int (round_half_even (x / ulp)) - x / ulp\<bar> * ulp"
    using ulp by (simp add: abs_mult)
  also have "\<dots> \<le> 1 / 2 * ulp"
    using round_half_even_error [of "x / ulp"] ulp by (intro mult_right_mono) simp_all
  also have "\<dots> = 2 powi exponent \<bar>x\<bar> / 2 ^ 53"
    by (simp add: ulp_def power_int_diff)
  also have "\<dots> \<le> \<bar>x\<bar> / 2 ^ 53"
    using exponent_bounds(1) [of "\<bar>x\<bar>"] False by (simp add: divide_right_mono)
  finally show ?thesis .
qed

lemma binary64_rounds_within: "rounds_within binary64 (1 / 2 ^ 53)"
  unfolding rounds_within_def using binary64_error by simp

lemma identity_rounds_within: "rounds_within (\<lambda>x. x) 0"
  by (simp add: rounds_within_def)

lemma binary64_examples:
  "binary64 (8 / 10) = 3602879701896397 / 4503599627370496"
  "binary64 (1 / 10) = 3602879701896397 / 36028797018963968"
  "binary64 (- 5 / 2) = - 5 / 2"
  "binary64 4503599627370497 = 4503599627370497"
  "binary64 9007199254740993 = 9007199254740992"
  "binary64 9007199254740995 = 9007199254740996"
  by (simp_all add: binary64_def exponent_def round_half_even_def ilog2.simps Let_def)

subsection \<open>Fitting an image into a box, with rounding\<close>

lemma rounds_within_bounds:
  assumes "rounds_within rnd eps" and "0 \<le> x"
  shows "(1 - eps) * x \<le> rnd x" and "rnd x \<le> (1 + eps) * x" and "0 \<le> rnd x"
proof -
  from assms(1) have e: "0 \<le> eps" "eps \<le> 1" and "\<bar>rnd x - x\<bar> \<le> eps * \<bar>x\<bar>"
    unfolding rounds_within_def by blast+
  with assms(2) have a: "\<bar>rnd x - x\<bar> \<le> eps * x" by simp
  then show 1: "(1 - eps) * x \<le> rnd x" and "rnd x \<le> (1 + eps) * x"
    by (simp_all add: algebra_simps abs_le_iff)
  have "0 \<le> (1 - eps) * x" using e assms(2) by simp
  with 1 show "0 \<le> rnd x" by linarith
qed

lemma calculate_image_dimensions_fl_Some:
  assumes "calculate_image_dimensions_fl rnd img mw mh = Some (w, h, s)"
  shows "\<exists>ow oh. fp_size img = Some (ow, oh) \<and> 0 < ow \<and> 0 < oh
           \<and> s = min (rnd (mw / real ow)) (rnd (mh / real oh))
           \<and> w = rnd (real ow * s) \<and> h = rnd (real oh * s)"
  using assms
  by (auto simp: calculate_image_dimensions_fl_def Let_def split: option.splits if_splits)

lemma fit_fl_tolerance:
  assumes r: "rounds_within rnd eps" and mw: "0 \<le> mw" and mh: "0 \<le> mh"
    and c: "calculate_image_dimensions_fl rnd img mw mh = Some (w, h, s)"
  shows "w \<le> (1 + eps)\<^sup>2 * mw" and "h \<le> (1 + eps)\<^sup>2 * mh"
    and "fp_size img = Some (ow, oh) \<Longrightarrow> real ow * s' \<le> mw \<Longrightarrow> real oh * s' \<le> mh
         \<Longrightarrow> (1 - eps) * s' \<le> s"
proof -
  from r have e: "0 \<le> eps" "eps \<le> 1" by (simp_all add: rounds_within_def)
  obtain ow' oh' where sz: "fp_size img = Some (ow', oh')" and o: "0 < ow'" "0 < oh'"
    and s: "s = min (rnd (mw / real ow')) (rnd (mh / real oh'))"
    and w: "w = rnd (real ow' * s)" and h: "h = rnd (real oh' * s)"
    using calculate_image_dimensions_fl_Some [OF c] by blast
  have a: "0 \<le> mw / real ow'" and b: "0 \<le> mh / real oh'" using mw mh by simp_all
  note ra = rounds_within_bounds [OF r a] and rb = rounds_within_bounds [OF r b]
  have s0: "0 \<le> s" using ra(3) rb(3) by (simp add: s)
  have "s \<le> (1 + eps) * (mw / real ow')" using ra(2) by (simp add: s)
  then have "real ow' * s \<le> real ow' * ((1 + eps) * (mw / real ow'))"
    using o by (intro mult_left_mono) simp_all
  then have ws: "real ow' * s \<le> (1 + eps) * mw" using o by simp
  have "0 \<le> real ow' * s" using s0 by simp
  from rounds_within_bounds(2) [OF r this] have "w \<le> (1 + eps) * (real ow' * s)" by (simp add: w)
  also have "\<dots> \<le> (1 + eps) * ((1 + eps) * mw)" using ws e by (intro mult_left_mono) simp_all
  finally show "w \<le> (1 + eps)\<^sup>2 * mw" by (simp add: power2_eq_square algebra_simps)
  have "s \<le> (1 + eps) * (mh / real oh')" using rb(2) by (simp add: s)
  then have "real oh' * s \<le> real oh' * ((1 + eps) * (mh / real oh'))"
    using o by (intro mult_left_mono) simp_all
  then have hs: "real oh' * s \<le> (1 + eps) * mh" using o by simp
  have "0 \<le> real oh' * s" using s0 by simp
  from rounds_within_bounds(2) [OF r this] have "h \<le> (1 + eps) * (real oh' * s)" by (simp add: h)
  also have "\<dots> \<le> (1 + eps) * ((1 + eps) * mh)" using hs e by (intro mult_left_mono) simp_all
  finally show "h \<le> (1 + eps)\<^sup>2 * mh" by (simp add: power2_eq_square algebra_simps)
  show "(1 - eps) * s' \<le> s"
    if "fp_size img = Some (ow, oh)" and "real ow * s' \<le> mw" and "real oh * s' \<le> mh"
  proof -
    from that(1) sz have [simp]: "ow = ow'" "oh = oh'" by simp_all
    have sa: "s' \<le> mw / real ow'" and sb: "s' \<le> mh / real oh'"
      using that(2,3) o by (simp_all add: field_simps)
    have "(1 - eps) * s' \<le> (1 - eps) * (mw / real ow')"
      using sa e by (intro mult_left_mono) simp_all
    with ra(1) have 1: "(1 - eps) * s' \<le> rnd (mw / real ow')" by linarith
    have "(1 - eps) * s' \<le> (1 - eps) * (mh / real oh')"
      using sb e by (intro mult_left_mono) simp_all
    with rb(1) have 2: "(1 - eps) * s' \<le> rnd (mh / real oh')" by linarith
    from 1 2 show ?thesis by (simp add: s)
  qed
qed

lemma flow_box_nonneg:
  assumes r: "rounds_within rnd eps" and "0 \<le> aw" and "0 \<le> ah" and "0 \<le> rh" and "50 < rw"
  shows "0 \<le> min rw (rnd (aw * rnd 0.8))" and "0 \<le> min rh (rnd (ah * rnd 0.6))"
proof -
  have "0 \<le> rnd 0.8" by (rule rounds_within_bounds(3) [OF r]) simp
  then have "0 \<le> aw * rnd 0.8" using assms(2) by simp
  then have w: "0 \<le> rnd (aw * rnd 0.8)" by (rule rounds_within_bounds(3) [OF r])
  have "0 \<le> rnd 0.6" by (rule rounds_within_bounds(3) [OF r]) simp
  then have "0 \<le> ah * rnd 0.6" using assms(3) by simp
  then have "0 \<le> rnd (ah * rnd 0.6)" by (rule rounds_within_bounds(3) [OF r])
  with w show "0 \<le> min rw (rnd (aw * rnd 0.8))" and "0 \<le> min rh (rnd (ah * rnd 0.6))"
    using assms(4,5) by simp_all
qed

subsection \<open>One step of the loops over floats\<close>

lemma fill_row_fl_stop:
  assumes "\<not> (idx < length image_files \<and> 50 < rw)"
  shows "fill_row_fl rnd image_files aw ah rh idx rw row rowh = (row, rowh, idx)"
  by (subst fill_row_fl.simps) (simp only: assms if_False)

lemma fill_row_fl_skip:
  assumes "idx < length image_files" and "50 < rw"
    and "calculate_image_dimensions_fl rnd (image_files ! idx) (min rw (rnd (aw * rnd 0.8)))
           (min rh (rnd (ah * rnd 0.6))) = None"
  shows "fill_row_fl rnd image_files aw ah rh idx rw row rowh
         = fill_row_fl rnd image_files aw ah rh (idx + 1) rw row rowh"
  using assms by (simp add: fill_row_fl.simps [of rnd image_files aw ah rh idx])

lemma fill_row_fl_step:
  assumes "idx < length image_files" and "50 < rw"
    and "calculate_image_dimensions_fl rnd (image_files ! idx) (min rw (rnd (aw * rnd 0.8)))
           (min rh (rnd (ah * rnd 0.6))) = Some (w, h, s)"
  shows "fill_row_fl rnd image_files aw ah rh idx rw row rowh
         = (if w \<le> rw
            then fill_row_fl rnd image_files aw ah rh (idx + 1) (rnd (rw - rnd (w + 10)))
                   (row @ [\<lparr>ri_path = image_files ! idx, ri_width = w, ri_height = h,
                             ri_scale = s\<rparr>])
                   (max rowh h)
            else (row, rowh, idx))"
  using assms by (simp add: fill_row_fl.simps [of rnd image_files aw ah rh idx])

lemma page_rows_fl_stop:
  assumes "\<not> (idx < length image_files \<and> 50 < rh)"
  shows "page_rows_fl rnd image_files aw ah idx rh pages = (pages, idx)"
  by (subst page_rows_fl.simps) (simp only: assms if_False)

lemma page_rows_fl_step:
  assumes "idx < length image_files" and "50 < rh"
    and "fill_row_fl rnd image_files aw ah rh idx aw [] 0 = (row1, rowh1, idx1)"
  shows "page_rows_fl rnd image_files aw ah idx rh pages
         = (if row1 \<noteq> [] \<and> rowh1 \<le> rh
            then page_rows_fl rnd image_files aw ah idx1 (rnd (rh - rnd (rowh1 + 10)))
                   (pages @ [row1])
            else (pages, idx1))"
  using assms by (simp add: page_rows_fl.simps [of rnd image_files aw ah idx])

subsection \<open>Without rounding\<close>

text \<open>With the identity for \<open>rnd\<close> the loops over floats are the loops over exact reals.\<close>

lemma calculate_image_dimensions_fl_exact:
  "calculate_image_dimensions_fl (\<lambda>x. x) img mw mh = calculate_image_dimensions img mw mh"
  by (simp add: calculate_image_dimensions_fl_def calculate_image_dimensions_def)

lemma fill_row_fl_exact:
  "fill_row_fl (\<lambda>x. x) image_files aw ah rh idx rw row rowh
   = fill_row image_files aw ah rh idx rw row rowh"
proof (induction image_files aw ah rh idx rw row rowh rule: fill_row.induct)
  case (1 image_files aw ah rh idx rw row rowh)
  show ?case
  proof (cases "idx < length image_files \<and> rw > 50")
    case False
    then show ?thesis by (simp add: fill_row_fl_stop fill_row_stop)
  next
    case True
    let ?mw = "min rw (aw * 0.8)" and ?mh = "min rh (ah * 0.6)"
    show ?thesis
    proof (cases "calculate_image_dimensions (image_files ! idx) ?mw ?mh")
      case None
      from "1.IH"(1) [OF True refl refl refl None] True None show ?thesis
        by (simp add: fill_row.simps [of image_files aw ah rh idx]
            fill_row_fl.simps [of _ image_files aw ah rh idx]
            calculate_image_dimensions_fl_exact)
    next
      case (Some t)
      obtain w h s where t: "t = (w, h, s)" by (cases t)
      show ?thesis
      proof (cases "w \<le> rw")
        case False
        with True Some t show ?thesis
          by (simp add: fill_row.simps [of image_files aw ah rh idx]
              fill_row_fl.simps [of _ image_files aw ah rh idx]
              calculate_image_dimensions_fl_exact)
      next
        case wle: True
        from "1.IH"(2) [OF True refl refl refl Some [unfolded t] refl refl wle]
          True Some t wle show ?thesis
          by (simp add: fill_row.simps [of image_files aw ah rh idx]
              fill_row_fl.simps [of _ image_files aw ah rh idx]
              calculate_image_dimensions_fl_exact)
      qed
    qed
  qed
qed

lemma page_rows_fl_exact:
  "page_rows_fl (\<lambda>x. x) image_files aw ah idx rh pages
   = page_rows image_files aw ah idx rh pages"
proof (induction image_files aw ah idx rh pages rule: page_rows.induct)
  case (1 image_files aw ah idx rh pages)
  show ?case
  proof (cases "idx < length image_files \<and> rh > 50")
    case False
    then show ?thesis by (simp add: page_rows_fl_stop page_rows_stop)
  next
    case guard: True
    obtain row rowh idx1 where fr:
      "fill_row image_files aw ah rh idx aw [] 0 = (row, rowh, idx1)"
      by (cases "fill_row image_files aw ah rh idx aw [] 0") auto
    have fl: "fill_row_fl (\<lambda>x. x) image_files aw ah rh idx aw [] 0 = (row, rowh, idx1)"
      by (simp only: fill_row_fl_exact fr)
    from guard have g: "idx < length image_files" "50 < rh" by simp_all
    note L = page_rows_fl_step [OF g fl, of pages]
    have R: "page_rows image_files aw ah idx rh pages
             = (if row \<noteq> [] \<and> rowh \<le> rh
                then page_rows image_files aw ah idx1 (rh - (rowh + 10)) (pages @ [row])
                else (pages, idx1))"
      using guard fr by (simp add: page_rows.simps [of image_files aw ah idx])
    show ?thesis
    proof (cases "row \<noteq> [] \<and> rowh \<le> rh")
      case False
      show ?thesis by (simp only: L R False if_False)
    next
      case ok: True
      note IH = "1.IH" [OF guard fr [symmetric] refl ok]
      show ?thesis by (simp only: L R ok if_True IH)
    qed
  qed
qed

lemma arrange_images_on_page_fl_exact:
  "arrange_images_on_page_fl (\<lambda>x. x) image_files idx aw ah
   = arrange_images_on_page image_files idx aw ah"
  by (simp add: arrange_images_on_page_fl_def arrange_images_on_page_def page_rows_fl_exact)

subsection \<open>Target box, fitted size and the two thresholds\<close>




text \<open>
  The same inputs behave in the same way on a page of 210 mm by 297 mm, the millimetre
  being the float \<^verbatim>\<open>72.0 / 2.54 * 0.1\<close> points (595.2755905511812 by 841.8897637795277
  points).
\<close>

lemma flow_thresholds_on_210_by_297_mm:
  "available_fl binary64
       (210 * binary64 (binary64 (72 / binary64 2.54) * binary64 0.1),
        297 * binary64 (binary64 (72 / binary64 2.54) * binary64 0.1))
     = (4602780770739015 / 8796093022208, 6772021979050469 / 8796093022208)
   \<and> fill_row_fl binary64 [photo ''a.png'' 800 600, photo ''b.png'' 1300 1000]
       (4602780770739015 / 8796093022208) (6772021979050469 / 8796093022208) (6772021979050469 / 8796093022208) 0
       (4602780770739015 / 8796093022208) [] 0
     = ([\<lparr>ri_path = photo ''a.png'' 800 600, ri_width = 7364449233182423 / 17592186044416,
          ri_height = 2761668462443409 / 8796093022208,
          ri_scale = 4713247509236751 / 9007199254740992\<rparr>],
        2761668462443409 / 8796093022208, 1)
   \<and> binary64 (4602780770739015 / 8796093022208 - binary64 (7364449233182423 / 17592186044416 + 10))
     = 1665190447851447 / 17592186044416
   \<and> (50::real) < 1665190447851447 / 17592186044416
   \<and> calculate_image_dimensions_fl binary64 (photo ''b.png'' 1300 1000)
       (min (1665190447851447 / 17592186044416) (binary64 (4602780770739015 / 8796093022208 * binary64 0.8)))
       (min (6772021979050469 / 8796093022208) (binary64 (6772021979050469 / 8796093022208 * binary64 0.6)))
     = Some (6660761791405789 / 70368744177664, 5123662916465991 / 70368744177664,
             5246630826461175 / 72057594037927936)
   \<and> (1665190447851447 / 17592186044416 :: real) < 6660761791405789 / 70368744177664
   \<and> \<not> ((50::real) < 50)
   \<and> fill_row_fl binary64 [photo ''a.png'' 800 600, photo ''b.png'' 1300 1000]
       (4602780770739015 / 8796093022208) (6772021979050469 / 8796093022208) (6772021979050469 / 8796093022208) 1 50
       [\<lparr>ri_path = photo ''a.png'' 800 600, ri_width = 7364449233182423 / 17592186044416,
          ri_height = 2761668462443409 / 8796093022208,
          ri_scale = 4713247509236751 / 9007199254740992\<rparr>]
       (2761668462443409 / 8796093022208)
     = ([\<lparr>ri_path = photo ''a.png'' 800 600, ri_width = 7364449233182423 / 17592186044416,
          ri_height = 2761668462443409 / 8796093022208,
          ri_scale = 4713247509236751 / 9007199254740992\<rparr>],
        2761668462443409 / 8796093022208, 1)
   \<and> arrange_images_on_page_fl binary64
       [photo ''p.png'' 700 500, photo ''q.png'' 300 300,
        photo ''r.png'' 400 900]
       0 (4602780770739015 / 8796093022208) (6772021979050469 / 8796093022208)
     = ([[\<lparr>ri_path = photo ''p.png'' 700 500, ri_width = 920556154147803 / 2199023255552,
           ri_height = 5260320880844589 / 17592186044416,
           ri_scale = 5386568581984859 / 9007199254740992\<rparr>,
          \<lparr>ri_path = photo ''q.png'' 300 300, ri_width = 832595223925723 / 8796093022208,
           ri_height = 832595223925723 / 8796093022208,
           ri_scale = 2841925030999801 / 9007199254740992\<rparr>]], 3)
   \<and> binary64 (6772021979050469 / 8796093022208 - binary64 (5260320880844589 / 17592186044416 + 10))
     = 8107801216812189 / 17592186044416
   \<and> (50::real) < 8107801216812189 / 17592186044416
   \<and> fill_row_fl binary64
       [photo ''p.png'' 700 500, photo ''q.png'' 300 300,
        photo ''r.png'' 400 900]
       (4602780770739015 / 8796093022208) (6772021979050469 / 8796093022208) (8107801216812189 / 17592186044416) 2
       (4602780770739015 / 8796093022208) [] 0
     = ([\<lparr>ri_path = photo ''r.png'' 400 900, ri_width = 7206934414944169 / 35184372088832,
          ri_height = 4053900608406095 / 8796093022208,
          ri_scale = 1153109506391067 / 2251799813685248\<rparr>],
        4053900608406095 / 8796093022208, 3)
   \<and> (8107801216812189 / 17592186044416 :: real) < 4053900608406095 / 8796093022208
   \<and> page_rows_fl binary64
       [photo ''p.png'' 700 500, photo ''q.png'' 300 300,
        photo ''r.png'' 400 900]
       (4602780770739015 / 8796093022208) (6772021979050469 / 8796093022208) 2 50
       [[\<lparr>ri_path = photo ''p.png'' 700 500, ri_width = 920556154147803 / 2199023255552,
           ri_height = 5260320880844589 / 17592186044416,
           ri_scale = 5386568581984859 / 9007199254740992\<rparr>,
         \<lparr>ri_path = photo ''q.png'' 300 300, ri_width = 832595223925723 / 8796093022208,
           ri_height = 832595223925723 / 8796093022208,
           ri_scale = 2841925030999801 / 9007199254740992\<rparr>]]
     = ([[\<lparr>ri_path = photo ''p.png'' 700 500, ri_width = 920556154147803 / 2199023255552,
           ri_height = 5260320880844589 / 17592186044416,
           ri_scale = 5386568581984859 / 9007199254740992\<rparr>,
          \<lparr>ri_path = photo ''q.png'' 300 300, ri_width = 832595223925723 / 8796093022208,
           ri_height = 832595223925723 / 8796093022208,
           ri_scale = 2841925030999801 / 9007199254740992\<rparr>]], 2)"
  by (simp add: arrange_images_on_page_fl_def page_rows_fl.simps fill_row_fl.simps
      calculate_image_dimensions_fl_def available_fl_def A4_def MARGIN_def photo_def
      binary64_def exponent_def round_half_even_def ilog2.simps Let_def)

section \<open>Flow layout: the pages of the PDF\<close>



lemma pdf_pages_rows:
  assumes "idx < length image_files"
    and "arrange_images_on_page image_files idx (fst pagesize - 2 * MARGIN)
           (snd pagesize - 2 * MARGIN) = (page_images, next_idx)"
    and "page_images \<noteq> []"
  shows "pdf_pages pagesize image_files idx
         = draw_rows (fst pagesize - 2 * MARGIN) (snd pagesize - MARGIN) page_images
           # pdf_pages pagesize image_files next_idx"
  using assms by (simp add: pdf_pages.simps [of pagesize image_files idx])


text \<open>
  On a canvas wider and taller than 50pt a measurable image at the start of a page always
  gets a row, so there the single-image branch is only reached by files that cannot be
  measured.
\<close>

lemma fallback_only_unmeasurable:
  assumes "50 < aw" and "50 < ah" and "idx < length image_files"
    and "fst (arrange_images_on_page image_files idx aw ah) = []"
  shows "calculate_image_dimensions (image_files ! idx) mw mh = None"
proof (rule ccontr)
  assume "calculate_image_dimensions (image_files ! idx) mw mh \<noteq> None"
  then have "calculate_image_dimensions (image_files ! idx) (min aw (aw * 0.8))
               (min ah (ah * 0.6)) \<noteq> None"
    by (simp add: calculate_image_dimensions_None)
  then obtain w h s where c: "calculate_image_dimensions (image_files ! idx)
      (min aw (aw * 0.8)) (min ah (ah * 0.6)) = Some (w, h, s)"
    by auto
  obtain row rowh idx1 where fr: "fill_row image_files aw ah ah idx aw [] 0 = (row, rowh, idx1)"
    by (cases "fill_row image_files aw ah ah idx aw [] 0") auto
  from fr fill_row_accept [OF assms(3,1) c, of "[]" 0] obtain new where "row = ([] @ [
      \<lparr>ri_path = image_files ! idx, ri_width = w, ri_height = h, ri_scale = s\<rparr>]) @ new"
    using fill_row_result by metis
  then have ne: "row \<noteq> []" by simp
  obtain pages' idx' where pr: "page_rows image_files aw ah idx1 (ah - (rowh + 10)) ([] @ [row])
      = (pages', idx')"
    by (cases "page_rows image_files aw ah idx1 (ah - (rowh + 10)) ([] @ [row])")
  from page_rows_result [OF pr] have "pages' \<noteq> []" by auto
  moreover have "arrange_images_on_page image_files idx aw ah = (pages', idx')"
    unfolding arrange_images_on_page_def
    using page_rows_accept [OF assms(3,2) fr ne, of "[]"] pr by simp
  ultimately show False using assms(4) by simp
qed

text \<open>
  Over floats, too, the first row of a fresh page takes the first image that can be
  measured, and the page takes that row, for every rounding with relative error at most
  \<open>1 / 20\<close>: the box of 0.8 by 0.6 of the canvas leaves room for the rounding.
\<close>

lemma fill_row_fl_result:
  assumes "fill_row_fl rnd image_files aw ah rh idx rw row rowh = (row', rowh', idx')"
    and "rounds_within rnd eps" and "0 \<le> aw" and "0 \<le> ah" and "0 \<le> rh"
  shows "(\<exists>new. row' = row @ new)
       \<and> rowh' \<le> max rowh ((1 + eps)\<^sup>2 * min rh (rnd (ah * rnd 0.6)))"
  using assms
proof (induction rnd image_files aw ah rh idx rw row rowh rule: fill_row_fl.induct)
  case (1 rnd image_files aw ah rh idx rw row rowh)
  note run = "1.prems"(1) and r = "1.prems"(2) and nn = "1.prems"(3,4,5)
  let ?mw = "min rw (rnd (aw * rnd 0.8))" and ?mh = "min rh (rnd (ah * rnd 0.6))"
  show ?case
  proof (cases "idx < length image_files \<and> rw > 50")
    case False
    with run have "row' = row" "rowh' = rowh" by (simp_all add: fill_row_fl_stop)
    then show ?thesis by simp
  next
    case True
    then have g: "idx < length image_files" "50 < rw" by simp_all
    show ?thesis
    proof (cases "calculate_image_dimensions_fl rnd (image_files ! idx) ?mw ?mh")
      case None
      with run have
        "fill_row_fl rnd image_files aw ah rh (idx + 1) rw row rowh = (row', rowh', idx')"
        by (simp add: fill_row_fl_skip [OF g])
      from "1.IH"(1) [OF True refl refl refl None this r nn] show ?thesis .
    next
      case (Some t)
      obtain w h s where t: "t = (w, h, s)" by (cases t)
      note c = Some [unfolded t]
      note step = fill_row_fl_step [OF g c, of row rowh]
      show ?thesis
      proof (cases "w \<le> rw")
        case False
        with run step have "row' = row" "rowh' = rowh" by simp_all
        then show ?thesis by simp
      next
        case wle: True
        let ?e = "\<lparr>ri_path = image_files ! idx, ri_width = w, ri_height = h, ri_scale = s\<rparr>"
        from run step wle have
          "fill_row_fl rnd image_files aw ah rh (idx + 1) (rnd (rw - rnd (w + 10)))
             (row @ [?e]) (max rowh h) = (row', rowh', idx')"
          by simp
        from "1.IH"(2) [OF True refl refl refl c refl refl wle this r nn]
        obtain new where new: "row' = (row @ [?e]) @ new"
          and hb: "rowh' \<le> max (max rowh h) ((1 + eps)\<^sup>2 * ?mh)"
          by blast
        have "h \<le> (1 + eps)\<^sup>2 * ?mh"
          using fit_fl_tolerance(2) [OF r flow_box_nonneg [OF r nn g(2)] c] .
        with hb have "rowh' \<le> max rowh ((1 + eps)\<^sup>2 * ?mh)" by linarith
        moreover have "row' = row @ (?e # new)" by (simp add: new)
        ultimately show ?thesis by blast
      qed
    qed
  qed
qed

lemma page_rows_fl_extends:
  "page_rows_fl rnd image_files aw ah idx rh pages = (pages', idx')
   \<Longrightarrow> \<exists>new. pages' = pages @ new"
proof (induction rnd image_files aw ah idx rh pages rule: page_rows_fl.induct)
  case (1 rnd image_files aw ah idx rh pages)
  show ?case
  proof (cases "idx < length image_files \<and> rh > 50")
    case False
    with "1.prems" show ?thesis by (simp add: page_rows_fl_stop)
  next
    case True
    then have g: "idx < length image_files" "50 < rh" by simp_all
    obtain row rowh idx1 where fr:
      "fill_row_fl rnd image_files aw ah rh idx aw [] 0 = (row, rowh, idx1)"
      by (cases "fill_row_fl rnd image_files aw ah rh idx aw [] 0") auto
    note step = page_rows_fl_step [OF g fr, of pages]
    show ?thesis
    proof (cases "row \<noteq> [] \<and> rowh \<le> rh")
      case False
      with "1.prems" step show ?thesis by auto
    next
      case ok: True
      with "1.prems" step have
        "page_rows_fl rnd image_files aw ah idx1 (rnd (rh - rnd (rowh + 10))) (pages @ [row])
         = (pages', idx')"
        by simp
      from "1.IH" [OF True fr [symmetric] refl ok this] show ?thesis by auto
    qed
  qed
qed

lemma rnd_scaled:
  assumes r: "rounds_within rnd eps" and x: "0 \<le> x" and k: "0 \<le> k"
  shows "rnd (x * rnd k) \<le> (1 + eps) * (1 + eps) * (k * x)"
proof -
  from r have e0: "0 \<le> eps" by (simp add: rounds_within_def)
  have a: "rnd k \<le> (1 + eps) * k" by (rule rounds_within_bounds(2) [OF r k])
  have "0 \<le> rnd k" by (rule rounds_within_bounds(3) [OF r k])
  then have "0 \<le> x * rnd k" using x by simp
  from rounds_within_bounds(2) [OF r this]
  have "rnd (x * rnd k) \<le> (1 + eps) * (x * rnd k)" .
  also have "\<dots> \<le> (1 + eps) * (x * ((1 + eps) * k))"
    using a x e0 by (intro mult_left_mono) simp_all
  also have "\<dots> = (1 + eps) * (1 + eps) * (k * x)" by (simp add: ac_simps)
  finally show ?thesis .
qed

lemma first_image_opens_row_fl:
  assumes r: "rounds_within rnd eps" and eps: "eps \<le> 1 / 20"
    and aw: "50 < aw" and ah: "50 < ah" and idx: "idx < length image_files"
    and sz: "fp_size (image_files ! idx) = Some (ow, oh)" and o: "0 < ow" "0 < oh"
  shows "fst (arrange_images_on_page_fl rnd image_files idx aw ah) \<noteq> []"
proof -
  let ?mw = "min aw (rnd (aw * rnd 0.8))" and ?mh = "min ah (rnd (ah * rnd 0.6))"
  from r have e0: "0 \<le> eps" by (simp add: rounds_within_def)
  have nn: "0 \<le> aw" "0 \<le> ah" "0 \<le> ah" using aw ah by simp_all
  note box = flow_box_nonneg [OF r nn aw]
  obtain w h s where c: "calculate_image_dimensions_fl rnd (image_files ! idx) ?mw ?mh
      = Some (w, h, s)"
    using sz o by (simp add: calculate_image_dimensions_fl_def Let_def)
  have p4: "(1 + eps)\<^sup>2 * ((1 + eps) * (1 + eps)) \<le> (21 / 20)\<^sup>2 * ((21 / 20) * (21 / 20))"
    using e0 eps by (intro mult_mono power_mono) simp_all
  have b8: "rnd (aw * rnd 0.8) \<le> (1 + eps) * (1 + eps) * (0.8 * aw)"
    by (rule rnd_scaled [OF r nn(1)]) simp
  have b6: "rnd (ah * rnd 0.6) \<le> (1 + eps) * (1 + eps) * (0.6 * ah)"
    by (rule rnd_scaled [OF r nn(2)]) simp
  have wb: "(1 + eps)\<^sup>2 * ?mw \<le> aw"
  proof -
    have "(1 + eps)\<^sup>2 * ?mw \<le> (1 + eps)\<^sup>2 * ((1 + eps) * (1 + eps) * (0.8 * aw))"
      using b8 by (intro mult_left_mono) simp_all
    also have "\<dots> = ((1 + eps)\<^sup>2 * ((1 + eps) * (1 + eps))) * (0.8 * aw)" by simp
    also have "\<dots> \<le> ((21 / 20)\<^sup>2 * ((21 / 20) * (21 / 20))) * (0.8 * aw)"
      using p4 nn(1) by (intro mult_right_mono) simp_all
    also have "\<dots> \<le> aw" using nn(1) by (simp add: power2_eq_square)
    finally show ?thesis .
  qed
  have hb: "(1 + eps)\<^sup>2 * ?mh \<le> ah"
  proof -
    have "(1 + eps)\<^sup>2 * ?mh \<le> (1 + eps)\<^sup>2 * ((1 + eps) * (1 + eps) * (0.6 * ah))"
      using b6 by (intro mult_left_mono) simp_all
    also have "\<dots> = ((1 + eps)\<^sup>2 * ((1 + eps) * (1 + eps))) * (0.6 * ah)" by simp
    also have "\<dots> \<le> ((21 / 20)\<^sup>2 * ((21 / 20) * (21 / 20))) * (0.6 * ah)"
      using p4 nn(2) by (intro mult_right_mono) simp_all
    also have "\<dots> \<le> ah" using nn(2) by (simp add: power2_eq_square)
    finally show ?thesis .
  qed
  have wle: "w \<le> aw" using fit_fl_tolerance(1) [OF r box c] wb by linarith
  let ?e = "\<lparr>ri_path = image_files ! idx, ri_width = w, ri_height = h, ri_scale = s\<rparr>"
  obtain row rowh idx1 where fr:
    "fill_row_fl rnd image_files aw ah ah idx aw [] 0 = (row, rowh, idx1)"
    by (cases "fill_row_fl rnd image_files aw ah ah idx aw [] 0") auto
  with fill_row_fl_step [OF idx aw c, of "[]" 0] wle have
    "fill_row_fl rnd image_files aw ah ah (idx + 1) (rnd (aw - rnd (w + 10))) ([] @ [?e])
       (max 0 h) = (row, rowh, idx1)"
    by simp
  from fill_row_fl_result [OF this r nn] have ne: "row \<noteq> []" by auto
  have "rowh \<le> max 0 ((1 + eps)\<^sup>2 * ?mh)"
    using fill_row_fl_result [OF fr r nn] by blast
  with hb nn(2) have rle: "rowh \<le> ah" by linarith
  obtain pages' idx' where pr:
    "page_rows_fl rnd image_files aw ah idx1 (rnd (ah - rnd (rowh + 10))) ([] @ [row])
     = (pages', idx')"
    by (cases "page_rows_fl rnd image_files aw ah idx1 (rnd (ah - rnd (rowh + 10)))
        ([] @ [row])")
  from page_rows_fl_extends [OF pr] have "pages' \<noteq> []" by auto
  moreover have "arrange_images_on_page_fl rnd image_files idx aw ah = (pages', idx')"
    unfolding arrange_images_on_page_fl_def
    using page_rows_fl_step [OF idx ah fr, of "[]"] ne rle pr by simp
  ultimately show ?thesis by simp
qed

text \<open>
  On the same canvas an image that can be measured opens the first row of a fresh page,
  scaled into the box of 0.8 of the width by 0.6 of the height.
\<close>

lemma first_image_opens_row:
  assumes aw: "50 < aw" and ah: "50 < ah" and idx: "idx < length image_files"
    and sz: "fp_size (image_files ! idx) = Some (ow, oh)" and o: "0 < ow" "0 < oh"
    and s: "s = min (aw * 0.8 / real ow) (ah * 0.6 / real oh)"
  shows "\<exists>rest rows next_idx.
           arrange_images_on_page image_files idx aw ah
           = ((\<lparr>ri_path = image_files ! idx, ri_width = real ow * s,
                 ri_height = real oh * s, ri_scale = s\<rparr> # rest) # rows, next_idx)"
proof -
  let ?e = "\<lparr>ri_path = image_files ! idx, ri_width = real ow * s,
              ri_height = real oh * s, ri_scale = s\<rparr>"
  have box: "min aw (aw * 0.8) = aw * 0.8" "min ah (ah * 0.6) = ah * 0.6"
    using aw ah by simp_all
  have "calculate_image_dimensions (image_files ! idx) (aw * 0.8) (ah * 0.6)
        = Some (real ow * s, real oh * s, s)"
    using sz o by (simp add: calculate_image_dimensions_def s Let_def)
  then have c: "calculate_image_dimensions (image_files ! idx) (min aw (aw * 0.8))
             (min ah (ah * 0.6)) = Some (real ow * s, real oh * s, s)"
    by (simp only: box)
  obtain row rowh idx1 where fr: "fill_row image_files aw ah ah idx aw [] 0 = (row, rowh, idx1)"
    by (cases "fill_row image_files aw ah ah idx aw [] 0") auto
  from fr fill_row_accept [OF idx aw c, of "[]" 0]
  have "fill_row image_files aw ah ah (idx + 1) (aw - (real ow * s + 10)) ([] @ [?e])
          (max 0 (real oh * s)) = (row, rowh, idx1)"
    by simp
  from fill_row_result [OF this] obtain rest where row: "row = ([] @ [?e]) @ rest" by blast
  then have ne: "row \<noteq> []" by simp
  obtain pages' idx' where pr:
    "page_rows image_files aw ah idx1 (ah - (rowh + 10)) ([] @ [row]) = (pages', idx')"
    by (cases "page_rows image_files aw ah idx1 (ah - (rowh + 10)) ([] @ [row])")
  from page_rows_result [OF pr] obtain rows where pages: "pages' = ([] @ [row]) @ rows"
    by blast
  have "arrange_images_on_page image_files idx aw ah = (pages', idx')"
    unfolding arrange_images_on_page_def
    using page_rows_accept [OF idx ah fr ne, of "[]"] pr by simp
  then have "arrange_images_on_page image_files idx aw ah = ((?e # rest) # rows, idx')"
    by (simp add: pages row)
  then show ?thesis by blast
qed

text \<open>
  Claim C8, as amended. On a canvas wider and taller than 50pt (the A4 page is), for the
  image at \<open>idx\<close> at the start of a fresh page: when it can be measured it opens the first
  row of that page, whatever its pixel size, scaled with its aspect ratio kept by
  \<open>s = min (0.8 * width / pixel width) (0.6 * height / pixel height)\<close>, which is strictly
  less than the scale that would fill the whole canvas, and the page is drawn from its
  rows and not by the single-image branch. The single-image branch is taken only when no
  row was formed, and then the file at \<open>idx\<close> cannot be measured and the branch draws
  nothing for it. Over floats as well, for every rounding with relative error at most
  \<open>1 / 20\<close>, a fresh page that starts at a measurable image does not stay without rows.
\<close>

theorem every_measurable_image_fits_a_row:
  assumes "50 < available_width" and "50 < available_height"
    and "available_width = fst pagesize - 2 * MARGIN"
    and "available_height = snd pagesize - 2 * MARGIN"
    and "idx < length image_files"
  shows "(\<forall>ow oh. fp_size (image_files ! idx) = Some (ow, oh) \<and> 0 < ow \<and> 0 < oh \<longrightarrow>
           (\<exists>s rest rows next_idx.
               s = min (available_width * 0.8 / real ow) (available_height * 0.6 / real oh)
             \<and> s < min (available_width / real ow) (available_height / real oh)
             \<and> arrange_images_on_page image_files idx available_width available_height
               = ((\<lparr>ri_path = image_files ! idx, ri_width = real ow * s,
                     ri_height = real oh * s, ri_scale = s\<rparr> # rest) # rows, next_idx)
             \<and> pdf_pages pagesize image_files idx
               = draw_rows available_width (snd pagesize - MARGIN)
                   ((\<lparr>ri_path = image_files ! idx, ri_width = real ow * s,
                       ri_height = real oh * s, ri_scale = s\<rparr> # rest) # rows)
                 # pdf_pages pagesize image_files next_idx))
       \<and> (fst (arrange_images_on_page image_files idx available_width available_height) = []
            \<longrightarrow>
            calculate_image_dimensions (image_files ! idx) available_width available_height
            = None
          \<and> draw_single_image available_width available_height (image_files ! idx) = [])
       \<and> (rounds_within rnd eps \<and> eps \<le> 1 / 20
            \<and> (\<exists>ow oh. fp_size (image_files ! idx) = Some (ow, oh) \<and> 0 < ow \<and> 0 < oh)
            \<longrightarrow>
            fst (arrange_images_on_page_fl rnd image_files idx available_width
                   available_height) \<noteq> [])"
proof (intro conjI allI impI)
  fix ow oh
  assume a: "fp_size (image_files ! idx) = Some (ow, oh) \<and> 0 < ow \<and> 0 < oh"
  define s where "s = min (available_width * 0.8 / real ow) (available_height * 0.6 / real oh)"
  from a have sz: "fp_size (image_files ! idx) = Some (ow, oh)" and o: "0 < ow" "0 < oh"
    by simp_all
  from first_image_opens_row [OF assms(1,2,5) sz o s_def]
  obtain rest rows next_idx where arr:
    "arrange_images_on_page image_files idx available_width available_height
     = ((\<lparr>ri_path = image_files ! idx, ri_width = real ow * s,
           ri_height = real oh * s, ri_scale = s\<rparr> # rest) # rows, next_idx)"
    by blast
  have "available_width * 0.8 / real ow < available_width / real ow"
    using assms(1) o by (simp add: field_simps)
  moreover have "available_height * 0.6 / real oh < available_height / real oh"
    using assms(2) o by (simp add: field_simps)
  ultimately have lt: "s < min (available_width / real ow) (available_height / real oh)"
    unfolding s_def by linarith
  have "pdf_pages pagesize image_files idx
        = draw_rows available_width (snd pagesize - MARGIN)
            ((\<lparr>ri_path = image_files ! idx, ri_width = real ow * s,
                ri_height = real oh * s, ri_scale = s\<rparr> # rest) # rows)
          # pdf_pages pagesize image_files next_idx"
    using pdf_pages_rows [OF assms(5) arr [unfolded assms(3,4)]]
    by (simp add: assms(3))
  with arr lt s_def
  show "\<exists>s rest rows next_idx.
               s = min (available_width * 0.8 / real ow) (available_height * 0.6 / real oh)
             \<and> s < min (available_width / real ow) (available_height / real oh)
             \<and> arrange_images_on_page image_files idx available_width available_height
               = ((\<lparr>ri_path = image_files ! idx, ri_width = real ow * s,
                     ri_height = real oh * s, ri_scale = s\<rparr> # rest) # rows, next_idx)
             \<and> pdf_pages pagesize image_files idx
               = draw_rows available_width (snd pagesize - MARGIN)
                   ((\<lparr>ri_path = image_files ! idx, ri_width = real ow * s,
                       ri_height = real oh * s, ri_scale = s\<rparr> # rest) # rows)
                 # pdf_pages pagesize image_files next_idx"
    by blast
next
  assume e: "fst (arrange_images_on_page image_files idx available_width available_height) = []"
  show "calculate_image_dimensions (image_files ! idx) available_width available_height = None"
    by (rule fallback_only_unmeasurable [OF assms(1,2,5) e])
  then show "draw_single_image available_width available_height (image_files ! idx) = []"
    by (simp add: draw_single_image_def)
next
  assume a: "rounds_within rnd eps \<and> eps \<le> 1 / 20
            \<and> (\<exists>ow oh. fp_size (image_files ! idx) = Some (ow, oh) \<and> 0 < ow \<and> 0 < oh)"
  then obtain ow oh where "fp_size (image_files ! idx) = Some (ow, oh)" "0 < ow" "0 < oh"
    by blast
  with a first_image_opens_row_fl [OF _ _ assms(1,2,5)]
  show "fst (arrange_images_on_page_fl rnd image_files idx available_width
               available_height) \<noteq> []"
    by blast
qed

theorem every_measurable_image_fits_a_row_witness:
  "(\<exists>rest rows next_idx.
      arrange_images_on_page [photo ''a.png'' 8000 6000, photo ''b.png'' 100 100] 0
        (fst A4 - 2 * MARGIN) (snd A4 - 2 * MARGIN)
      = ((\<lparr>ri_path = photo ''a.png'' 8000 6000, ri_width = 52327 / 125,
            ri_height = 156981 / 500, ri_scale = 52327 / 1000000\<rparr> # rest) # rows, next_idx)
    \<and> pdf_pages A4 [photo ''a.png'' 8000 6000, photo ''b.png'' 100 100] 0
      = draw_rows (fst A4 - 2 * MARGIN) (snd A4 - MARGIN)
          ((\<lparr>ri_path = photo ''a.png'' 8000 6000, ri_width = 52327 / 125,
              ri_height = 156981 / 500, ri_scale = 52327 / 1000000\<rparr> # rest) # rows)
        # pdf_pages A4 [photo ''a.png'' 8000 6000, photo ''b.png'' 100 100] next_idx)
   \<and> (52327 / 1000000 :: real)
       < min ((fst A4 - 2 * MARGIN) / 8000) ((snd A4 - 2 * MARGIN) / 6000)
   \<and> fst (arrange_images_on_page [corrupt ''c.png''] 0
            (fst A4 - 2 * MARGIN) (snd A4 - 2 * MARGIN)) = []
   \<and> calculate_image_dimensions (corrupt ''c.png'')
       (fst A4 - 2 * MARGIN) (snd A4 - 2 * MARGIN) = None
   \<and> draw_single_image (fst A4 - 2 * MARGIN) (snd A4 - 2 * MARGIN) (corrupt ''c.png'') = []
   \<and> fst (arrange_images_on_page_fl binary64
            [photo ''a.png'' 8000 6000, photo ''b.png'' 100 100] 0
            (fst A4 - 2 * MARGIN) (snd A4 - 2 * MARGIN)) \<noteq> []"
proof -
  let ?imgs = "[photo ''a.png'' 8000 6000, photo ''b.png'' 100 100]"
  let ?aw = "fst A4 - 2 * MARGIN" and ?ah = "snd A4 - 2 * MARGIN"
  have h: "50 < ?aw" "50 < ?ah" "?aw = fst A4 - 2 * MARGIN" "?ah = snd A4 - 2 * MARGIN"
    by (simp_all add: A4_def MARGIN_def)
  have i0: "0 < length ?imgs" and j0: "0 < length [corrupt ''c.png'']" by simp_all
  have sz: "fp_size (?imgs ! 0) = Some (8000, 6000) \<and> (0::nat) < 8000 \<and> (0::nat) < 6000"
    by (simp add: photo_def)
  have s: "min (?aw * 0.8 / real 8000) (?ah * 0.6 / real 6000) = 52327 / 1000000"
    by (simp add: A4_def MARGIN_def)
  have w: "(8000::real) * (52327 / 1000000) = 52327 / 125"
    "(6000::real) * (52327 / 1000000) = 156981 / 500"
    by simp_all
  note T = every_measurable_image_fits_a_row [OF h i0]
  from T [THEN conjunct1, THEN spec, THEN spec, THEN mp, OF sz]
  obtain s' rest rows next_idx where
    f1: "s' = min (?aw * 0.8 / real 8000) (?ah * 0.6 / real 6000)"
    and f2: "s' < min (?aw / real 8000) (?ah / real 6000)"
    and f3: "arrange_images_on_page ?imgs 0 ?aw ?ah
     = ((\<lparr>ri_path = ?imgs ! 0, ri_width = real 8000 * s',
           ri_height = real 6000 * s', ri_scale = s'\<rparr> # rest) # rows, next_idx)"
    and f4: "pdf_pages A4 ?imgs 0
     = draw_rows ?aw (snd A4 - MARGIN)
         ((\<lparr>ri_path = ?imgs ! 0, ri_width = real 8000 * s',
             ri_height = real 6000 * s', ri_scale = s'\<rparr> # rest) # rows)
       # pdf_pages A4 ?imgs next_idx"
    by blast
  have sv: "s' = 52327 / 1000000" by (simp only: f1 s)
  note g3 = f3 [unfolded sv nth_Cons_0 of_nat_numeral w]
  note g4 = f4 [unfolded sv nth_Cons_0 of_nat_numeral w]
  from g3 g4 have a: "(\<exists>rest rows next_idx.
      arrange_images_on_page ?imgs 0 ?aw ?ah
      = ((\<lparr>ri_path = photo ''a.png'' 8000 6000, ri_width = 52327 / 125,
            ri_height = 156981 / 500, ri_scale = 52327 / 1000000\<rparr> # rest) # rows, next_idx)
    \<and> pdf_pages A4 ?imgs 0
      = draw_rows ?aw (snd A4 - MARGIN)
          ((\<lparr>ri_path = photo ''a.png'' 8000 6000, ri_width = 52327 / 125,
              ri_height = 156981 / 500, ri_scale = 52327 / 1000000\<rparr> # rest) # rows)
        # pdf_pages A4 ?imgs next_idx)"
    by blast
  note b = f2 [unfolded sv of_nat_numeral]
  have e: "fst (arrange_images_on_page [corrupt ''c.png''] 0 ?aw ?ah) = []"
    by (simp add: arrange_images_on_page_def page_rows.simps fill_row.simps
        calculate_image_dimensions_def corrupt_def A4_def MARGIN_def)
  from every_measurable_image_fits_a_row [OF h j0, THEN conjunct2, THEN conjunct1, THEN mp,
      OF e]
  have c: "calculate_image_dimensions (corrupt ''c.png'') ?aw ?ah = None
     \<and> draw_single_image ?aw ?ah (corrupt ''c.png'') = []"
    by simp
  have "rounds_within binary64 (1 / 2 ^ 53) \<and> (1 / 2 ^ 53 :: real) \<le> 1 / 20
        \<and> (\<exists>ow oh. fp_size (?imgs ! 0) = Some (ow, oh) \<and> 0 < ow \<and> 0 < oh)"
    using binary64_rounds_within sz by simp
  from T [where rnd = binary64 and eps = "1 / 2 ^ 53", THEN conjunct2, THEN conjunct2,
      THEN mp, OF this]
  have d: "fst (arrange_images_on_page_fl binary64 ?imgs 0 ?aw ?ah) \<noteq> []" .
  from a b e c d show ?thesis by blast
qed

text \<open>
  The claim fails on the code in both readings of "cannot fit any row". An image of
  8000 x 6000 pixels, far larger than the page, is not put alone on a page at the full
  canvas bound: it is scaled to 418.616pt by 313.962pt, inside the canvas of 523.27pt by
  769.89pt, and the next image stands beside it in the same row. And the file for which no
  row can be formed, one that cannot be measured, is not placed at all.
\<close>

theorem oversized_image_counterexample:
  "create_pdf_from_images_v1 A4 [photo ''a.png'' 8000 6000, photo ''b.png'' 100 100]
   = Some [[\<lparr>dc_path = photo ''a.png'' 8000 6000, dc_x = 36, dc_y = 61491 / 125,
              dc_width = 52327 / 125, dc_height = 156981 / 500\<rparr>,
            \<lparr>dc_path = photo ''b.png'' 100 100, dc_x = 58077 / 125, dc_y = 300791 / 500,
              dc_width = 47327 / 500, dc_height = 47327 / 500\<rparr>]]
   \<and> (52327 / 125 :: real) < fst A4 - 2 * MARGIN
   \<and> (156981 / 500 :: real) < snd A4 - 2 * MARGIN
   \<and> fst (arrange_images_on_page [corrupt ''c.png''] 0
            (fst A4 - 2 * MARGIN) (snd A4 - 2 * MARGIN)) = []
   \<and> create_pdf_from_images_v1 A4 [corrupt ''c.png''] = Some [[]]"
  by (simp add: create_pdf_from_images_v1_def pdf_pages.simps arrange_images_on_page_def
      page_rows.simps fill_row.simps calculate_image_dimensions_def draw_single_image_def
      photo_def corrupt_def A4_def MARGIN_def Let_def)

text \<open>
  Claim C6. Files that cannot be measured are left out of the placements, but in the flow
  script they are not left out of the page count: two corrupt files alone make a PDF of
  two empty pages (one corrupt file makes one), and two corrupt files after four images
  that fill a page add two empty pages to the one page the four images take alone.
\<close>

theorem corrupt_images_advance_pages:
  "create_pdf_from_images_v1 A4 [corrupt ''a.png'', corrupt ''b.png''] = Some [[], []]
   \<and> create_pdf_from_images_v1 A4 [corrupt ''a.png''] = Some [[]]
   \<and> create_pdf_from_images_v1 A4
       [photo ''a.png'' 100 100, photo ''b.png'' 100 100, photo ''c.png'' 100 100,
        photo ''d.png'' 100 100] 
     = Some [[\<lparr>dc_path = photo ''a.png'' 100 100, dc_x = 36, dc_y = 193637 / 500,
                dc_width = 52327 / 125, dc_height = 52327 / 125\<rparr>,
              \<lparr>dc_path = photo ''b.png'' 100 100, dc_x = 58077 / 125, dc_y = 109851 / 200,
                dc_width = 47327 / 500, dc_height = 47327 / 500\<rparr>,
              \<lparr>dc_path = photo ''c.png'' 100 100, dc_x = 36, dc_y = 36,
                dc_width = 170637 / 500, dc_height = 170637 / 500\<rparr>,
              \<lparr>dc_path = photo ''d.png'' 100 100, dc_x = 193637 / 500, dc_y = 120639 / 1000,
                dc_width = 42999 / 250, dc_height = 42999 / 250\<rparr>]]
   \<and> create_pdf_from_images_v1 A4
       [photo ''a.png'' 100 100, photo ''b.png'' 100 100, photo ''c.png'' 100 100,
        photo ''d.png'' 100 100, corrupt ''e.png'', corrupt ''f.png'']
     = Some [[\<lparr>dc_path = photo ''a.png'' 100 100, dc_x = 36, dc_y = 193637 / 500,
                dc_width = 52327 / 125, dc_height = 52327 / 125\<rparr>,
              \<lparr>dc_path = photo ''b.png'' 100 100, dc_x = 58077 / 125, dc_y = 109851 / 200,
                dc_width = 47327 / 500, dc_height = 47327 / 500\<rparr>,
              \<lparr>dc_path = photo ''c.png'' 100 100, dc_x = 36, dc_y = 36,
                dc_width = 170637 / 500, dc_height = 170637 / 500\<rparr>,
              \<lparr>dc_path = photo ''d.png'' 100 100, dc_x = 193637 / 500, dc_y = 120639 / 1000,
                dc_width = 42999 / 250, dc_height = 42999 / 250\<rparr>],
             [], []]"
  by (simp add: create_pdf_from_images_v1_def pdf_pages.simps arrange_images_on_page_def
      page_rows.simps fill_row.simps calculate_image_dimensions_def draw_single_image_def
      photo_def corrupt_def A4_def MARGIN_def Let_def)

section \<open>Aspect ratio\<close>
















section \<open>Placements stay inside their bounds and apart\<close>

subsection \<open>Rectangles\<close>





subsection \<open>Grid cells\<close>






subsection \<open>Spiral cells\<close>






subsection \<open>The drawing loops of the flow script\<close>













end
